theory Spec2Isabelle
  imports Main "HOL-Library.Sublist"
begin

section \<open>Values and cancel reasons\<close>

text \<open>
  \<^verbatim>\<open>class Cancel { constructor(msg) { this._msg = String(msg); } }\<close>

  A reason is an object with the single field \<open>_msg\<close>.
\<close>

datatype Cancel = Cancel (msg: string)

text \<open>
  An observer is an object with an identity and two callbacks; an observer without a
  callback is one with an empty body. A callback body is a list of statements: calls
  into the token interface, or \<open>throw\<close>. Tokens are named by their address in the heap.
  Callbacks keep no state of their own: what a callback does depends on the tokens only.

  \<^item> \<open>Subscribe t ob\<close> is \<open>t.subscribe(ob)\<close>.
  \<^item> \<open>SubscribeObservable t ob\<close> is \<open>t[Symbol.observable]().subscribe(ob)\<close>.
  \<^item> \<open>Unsubscribe k\<close> calls \<open>unsubscribe()\<close> on the subscription that the \<open>k\<close>-th
    registration returned (registrations are counted from 0, over all tokens).
  \<^item> \<open>CallCancel t m\<close> is \<open>cancel(m)\<close> where \<open>cancel\<close> is the trigger of token \<open>t\<close>;
    \<open>CallCancelArg t\<close> is \<open>cancel(x)\<close> where \<open>x\<close> is the argument the running function
    received.
  \<^item> \<open>ThrowIfRequested t\<close> is \<open>t.throwIfRequested()\<close>, and \<open>Throw e\<close> is \<open>throw e\<close>.

  The values: \<open>undefined\<close>, \<open>null\<close>, booleans, numbers with an integer value of magnitude
  below \<open>2 ^ 53\<close> (these are written in full by \<open>String\<close>), strings, \<open>Cancel\<close> instances,
  and \<open>JCustom body s\<close> for any other value, given by what converting it to a string
  does. For an object this is its \<open>toString\<close> method: the method runs \<open>body\<close> and then
  returns the string \<open>s\<close> (a method that throws has a body that throws). A plain object
  is \<open>JCustom [] ''[object Object]''\<close>; a value that the language converts without
  running any code of the caller, such as a number with a fraction, has an empty body
  and the string the language gives it.

  An observer's identity is \<open>Object i\<close> for an observer object and \<open>CancelFn t\<close> for the
  trigger of token \<open>t\<close> passed as an observer.
\<close>

datatype ident = Object nat | CancelFn nat

datatype jsval =
    JUndefined | JNull | JBool bool | JNum int | JStr string | JObj Cancel
  | JCustom "stmt list" string
and observer = Observer (ident: ident) (on_next: "stmt list") (on_complete: "stmt list")
and stmt =
    Subscribe nat observer
  | SubscribeObservable nat observer
  | Unsubscribe nat
  | CallCancel nat jsval
  | CallCancelArg nat
  | ThrowIfRequested nat
  | Throw jsval

text \<open>
  The conversion \<open>String(v)\<close>. On an object with a \<open>toString\<close> method it calls the method
  first (see \<open>toString_call\<close> below); \<open>String_js v\<close> is the string that results when
  that call returns (the method is taken to return a string, so that \<open>valueOf\<close> is not
  consulted). A \<open>Cancel\<close> instance defines no \<open>toString\<close>, so it is converted by
  \<open>Object.prototype.toString\<close>. An integer is written in decimal digits.
\<close>

fun digits :: "nat \<Rightarrow> string" where
  "digits n =
     (if n < 10 then [''0123456789'' ! n] else digits (n div 10) @ [''0123456789'' ! (n mod 10)])"

declare digits.simps [simp del]

definition Number_toString :: "int \<Rightarrow> string" where
  "Number_toString k = (if k < 0 then CHR ''-'' # digits (nat (- k)) else digits (nat k))"

fun String_js :: "jsval \<Rightarrow> string" where
  "String_js JUndefined = ''undefined''"
| "String_js JNull = ''null''"
| "String_js (JBool b) = (if b then ''true'' else ''false'')"
| "String_js (JNum k) = Number_toString k"
| "String_js (JStr s) = s"
| "String_js (JObj c) = ''[object Object]''"
| "String_js (JCustom body s) = s"

definition new_Cancel :: "jsval \<Rightarrow> Cancel" where
  "new_Cancel m = Cancel (String_js m)"

section \<open>State\<close>

text \<open>
  \<open>_reason\<close> is \<open>undefined\<close> (\<open>None\<close>) or a \<open>Cancel\<close>; \<open>_observers\<close> is a JavaScript
  \<open>Set\<close>, which iterates in insertion order and holds each object once. Its members are
  the observer handles of the channel: a handle is made by one registration (\<open>rid\<close> is
  the number of that registration) and forwards \<open>next\<close> and \<open>complete\<close> to the
  observer it was made for.
\<close>

datatype handle = Handle (rid: nat) (target: observer)

record token =
  reason :: "Cancel option"
  observers :: "handle list"

datatype event = Next nat ident jsval | Complete nat ident

text \<open>
  The world: the tokens allocated so far; for each registration made so far, the token
  it was made on; the errors handed to \<open>console.error\<close>; and the calls made to observer
  callbacks (which token called which observer), the last two in the order they
  happened.
\<close>

record world =
  heap :: "token list"
  disposers :: "nat list"
  reported :: "jsval list"
  calls :: "event list"

datatype completion = Normal world | Throws jsval world

fun world_of :: "completion \<Rightarrow> world" where
  "world_of (Normal w) = w"
| "world_of (Throws e w) = w"

definition Set_add :: "handle \<Rightarrow> handle list \<Rightarrow> handle list" where
  "Set_add h hs = (if h \<in> set hs then hs else hs @ [h])"

definition Set_delete :: "nat \<Rightarrow> handle list \<Rightarrow> handle list" where
  "Set_delete k hs = filter (\<lambda>h. rid h \<noteq> k) hs"

definition upd_token :: "nat \<Rightarrow> (token \<Rightarrow> token) \<Rightarrow> world \<Rightarrow> world" where
  "upd_token t f w = w\<lparr>heap := (heap w)[t := f (heap w ! t)]\<rparr>"

definition record_call :: "event \<Rightarrow> world \<Rightarrow> world" where
  "record_call e w = w\<lparr>calls := calls w @ [e]\<rparr>"

text \<open>
  \<^verbatim>\<open>function HostReportErrors(...errors) { for (let error of errors) console.error(error); }\<close>
\<close>

fun HostReportErrors :: "jsval list \<Rightarrow> world \<Rightarrow> completion" where
  "HostReportErrors [] w = Normal w"
| "HostReportErrors (error # errors) w =
     HostReportErrors errors (w\<lparr>reported := reported w @ [error]\<rparr>)"

text \<open>\<^verbatim>\<open>try { c } catch (e) { h(e) }\<close>\<close>

fun try_catch :: "completion \<Rightarrow> (jsval \<Rightarrow> world \<Rightarrow> completion) \<Rightarrow> completion" where
  "try_catch (Normal w) h = Normal w"
| "try_catch (Throws e w) h = h e w"

definition type_error :: jsval where
  "type_error = JStr ''TypeError''"

text \<open>
  Modelled from the spec: the subscribable channel (the \<open>zen-observable\<close> package, which
  is not part of the sources). Each registration is independent: \<open>register(observer)\<close>
  makes a new handle for the caller's observer and runs the subscriber function the
  constructor installed, \<^verbatim>\<open>observer => { this._observers.add(observer); return () =>
  this._observers.delete(observer) }\<close>, with it. The disposer that is returned belongs
  to this registration; it deletes the handle from the set of the token the
  registration was made on, and deregisters idempotently.
\<close>

definition Observable_subscribe :: "nat \<Rightarrow> observer \<Rightarrow> world \<Rightarrow> world" where
  "Observable_subscribe t ob w =
     upd_token t (\<lambda>tk. tk\<lparr>observers := Set_add (Handle (length (disposers w)) ob) (observers tk)\<rparr>)
       (w\<lparr>disposers := disposers w @ [t]\<rparr>)"

definition unsubscribe :: "nat \<Rightarrow> world \<Rightarrow> world" where
  "unsubscribe k w =
     upd_token (disposers w ! k) (\<lambda>tk. tk\<lparr>observers := Set_delete k (observers tk)\<rparr>) w"

text \<open>\<^verbatim>\<open>get reason() { return this._reason; }\<close>, as the value a callback receives.\<close>

definition reason_val :: "nat \<Rightarrow> world \<Rightarrow> jsval" where
  "reason_val t w = (case reason (heap w ! t) of None \<Rightarrow> JUndefined | Some r \<Rightarrow> JObj r)"

text \<open>\<^verbatim>\<open>throwIfRequested() { if (this._reason !== undefined) throw this._reason; }\<close>\<close>

definition throwIfRequested :: "nat \<Rightarrow> world \<Rightarrow> completion" where
  "throwIfRequested t w =
     (case reason (heap w ! t) of None \<Rightarrow> Normal w | Some r \<Rightarrow> Throws (JObj r) w)"

section \<open>The token operations\<close>

text \<open>
  Callbacks call back into the token, so the operations are mutually recursive and need
  not terminate. The first argument bounds the depth of nested invocations of caller
  code (callbacks and \<open>toString\<close> methods); \<open>None\<close> means the bound was reached.

  \<^item> \<open>exec n x body w\<close> runs a function body whose parameter is bound to \<open>x\<close>. A call on
    an address that holds no token, or on a subscription that was never returned, is a
    call on \<open>undefined\<close> and throws.
  \<^item> \<open>subscribe\<close>, \<open>trigger\<close> (the function the constructor hands to \<open>fn\<close>) and
    \<open>dispatch\<close> (\<open>_dispatch\<close>) follow the methods of \<open>CancelToken\<close>.
  \<^item> \<open>toString_call n m w\<close> is what evaluating \<open>String(m)\<close> inside \<open>new Cancel(m)\<close> runs:
    the \<open>toString\<close> method of \<open>m\<close>, if it has one. In \<open>trigger\<close> this happens after the
    test of \<open>_reason\<close> and before the assignment to it.
  \<^item> \<open>dispatch_loop\<close> is the \<open>for\<close> loop of \<open>_dispatch\<close> over the array copied from the
    set.
\<close>

function exec :: "nat \<Rightarrow> jsval \<Rightarrow> stmt list \<Rightarrow> world \<Rightarrow> completion option"
and subscribe :: "nat \<Rightarrow> nat \<Rightarrow> observer \<Rightarrow> world \<Rightarrow> completion option"
and trigger :: "nat \<Rightarrow> nat \<Rightarrow> jsval \<Rightarrow> world \<Rightarrow> completion option"
and toString_call :: "nat \<Rightarrow> jsval \<Rightarrow> world \<Rightarrow> completion option"
and dispatch :: "nat \<Rightarrow> nat \<Rightarrow> world \<Rightarrow> completion option"
and dispatch_loop :: "nat \<Rightarrow> nat \<Rightarrow> handle list \<Rightarrow> world \<Rightarrow> completion option"
where
  "exec n x [] w = Some (Normal w)"
| "exec n x (Throw e # body) w = Some (Throws e w)"
| "exec n x (Subscribe t ob # body) w =
     (if t < length (heap w) then
        (case subscribe n t ob w of
           None \<Rightarrow> None
         | Some (Throws e w') \<Rightarrow> Some (Throws e w')
         | Some (Normal w') \<Rightarrow> exec n x body w')
      else Some (Throws type_error w))"
| "exec n x (SubscribeObservable t ob # body) w =
     (if t < length (heap w) then exec n x body (Observable_subscribe t ob w)
      else Some (Throws type_error w))"
| "exec n x (Unsubscribe k # body) w =
     (if k < length (disposers w) then exec n x body (unsubscribe k w)
      else Some (Throws type_error w))"
| "exec n x (CallCancel t m # body) w =
     (if t < length (heap w) then
        (case trigger n t m w of
           None \<Rightarrow> None
         | Some (Throws e w') \<Rightarrow> Some (Throws e w')
         | Some (Normal w') \<Rightarrow> exec n x body w')
      else Some (Throws type_error w))"
| "exec n x (CallCancelArg t # body) w =
     (if t < length (heap w) then
        (case trigger n t x w of
           None \<Rightarrow> None
         | Some (Throws e w') \<Rightarrow> Some (Throws e w')
         | Some (Normal w') \<Rightarrow> exec n x body w')
      else Some (Throws type_error w))"
| "exec n x (ThrowIfRequested t # body) w =
     (if t < length (heap w) then
        (case throwIfRequested t w of
           Throws e w' \<Rightarrow> Some (Throws e w')
         | Normal w' \<Rightarrow> exec n x body w')
      else Some (Throws type_error w))"
| "subscribe n t ob w =
     (let w' = Observable_subscribe t ob w in
      if reason (heap w' ! t) \<noteq> None then dispatch n t w' else Some (Normal w'))"
| "trigger n t m w =
     (if reason (heap w ! t) = None then
        (case toString_call n m w of
           None \<Rightarrow> None
         | Some (Throws e w') \<Rightarrow> Some (Throws e w')
         | Some (Normal w') \<Rightarrow>
             dispatch n t (upd_token t (\<lambda>tk. tk\<lparr>reason := Some (new_Cancel m)\<rparr>) w'))
      else Some (Normal w))"
| "toString_call n JUndefined w = Some (Normal w)"
| "toString_call n JNull w = Some (Normal w)"
| "toString_call n (JBool b) w = Some (Normal w)"
| "toString_call n (JNum k) w = Some (Normal w)"
| "toString_call n (JStr s) w = Some (Normal w)"
| "toString_call n (JObj c) w = Some (Normal w)"
| "toString_call 0 (JCustom body s) w = None"
| "toString_call (Suc n) (JCustom body s) w = exec n JUndefined body w"
| "dispatch n t w =
     (case dispatch_loop n t (observers (heap w ! t)) w of
        None \<Rightarrow> None
      | Some (Throws e w') \<Rightarrow> Some (Throws e w')
      | Some (Normal w') \<Rightarrow> Some (Normal (upd_token t (\<lambda>tk. tk\<lparr>observers := []\<rparr>) w')))"
| "dispatch_loop n t [] w = Some (Normal w)"
| "dispatch_loop 0 t (h # hs) w = None"
| "dispatch_loop (Suc n) t (h # hs) w =
     (case exec n (reason_val t w) (on_next (target h))
             (record_call (Next t (ident (target h)) (reason_val t w)) w) of
        None \<Rightarrow> None
      | Some c1 \<Rightarrow>
          (case try_catch c1 (\<lambda>e. HostReportErrors [e]) of
             Throws e w1 \<Rightarrow> Some (Throws e w1)
           | Normal w1 \<Rightarrow>
               (case exec n JUndefined (on_complete (target h))
                       (record_call (Complete t (ident (target h))) w1) of
                  None \<Rightarrow> None
                | Some c2 \<Rightarrow>
                    (case try_catch c2 (\<lambda>e. HostReportErrors [e]) of
                       Throws e w2 \<Rightarrow> Some (Throws e w2)
                     | Normal w2 \<Rightarrow> dispatch_loop (Suc n) t hs w2))))"
  by pat_completeness auto

text \<open>
  Every call either lowers the bound, or keeps it and moves from \<open>exec\<close> to
  \<open>subscribe\<close>/\<open>trigger\<close> to \<open>dispatch\<close> to \<open>dispatch_loop\<close>, or keeps both and
  shortens the list it walks.
\<close>

termination
  by (relation "measures [
        (\<lambda>a. case a of
            Inl (Inl (n, x, body, w)) \<Rightarrow> n
          | Inl (Inr (Inl (n, t, ob, w))) \<Rightarrow> n
          | Inl (Inr (Inr (n, t, m, w))) \<Rightarrow> n
          | Inr (Inl (n, m, w)) \<Rightarrow> n
          | Inr (Inr (Inl (n, t, w))) \<Rightarrow> n
          | Inr (Inr (Inr (n, t, hs, w))) \<Rightarrow> n),
        (\<lambda>a. case a of
            Inl (Inl (n, x, body, w)) \<Rightarrow> 3
          | Inl (Inr (Inl (n, t, ob, w))) \<Rightarrow> 2
          | Inl (Inr (Inr (n, t, m, w))) \<Rightarrow> 2
          | Inr (Inl (n, m, w)) \<Rightarrow> 0
          | Inr (Inr (Inl (n, t, w))) \<Rightarrow> 1
          | Inr (Inr (Inr (n, t, hs, w))) \<Rightarrow> 0),
        (\<lambda>a. case a of
            Inl (Inl (n, x, body, w)) \<Rightarrow> length body
          | Inl (Inr (Inl (n, t, ob, w))) \<Rightarrow> 0
          | Inl (Inr (Inr (n, t, m, w))) \<Rightarrow> 0
          | Inr (Inl (n, m, w)) \<Rightarrow> 0
          | Inr (Inr (Inl (n, t, w))) \<Rightarrow> 0
          | Inr (Inr (Inr (n, t, hs, w))) \<Rightarrow> length hs)]") auto

section \<open>Construction\<close>

text \<open>
  \<^verbatim>\<open>constructor(fn) { this._reason = undefined; this._observers = new Set(); ...; fn(msg => ...) }\<close>

  The new token takes the next free address; \<open>fn\<close> is given that address, which stands
  for the trigger closure it receives. The completion is that of \<open>fn\<close>: the constructor
  has no handler around the call.
\<close>

definition alloc :: "world \<Rightarrow> world" where
  "alloc w = w\<lparr>heap := heap w @ [\<lparr>reason = None, observers = []\<rparr>]\<rparr>"

definition new_CancelToken :: "nat \<Rightarrow> (nat \<Rightarrow> stmt list) \<Rightarrow> world \<Rightarrow> completion option" where
  "new_CancelToken n fn w = exec n JUndefined (fn (length (heap w))) (alloc w)"

text \<open>
  \<^verbatim>\<open>static race(list) { return new CancelToken(cancel => { for (let token of list) token.subscribe(cancel); }); }\<close>

  Subscribing with a function makes it the \<open>next\<close> callback of the registration; there
  is no \<open>complete\<close> callback.
\<close>

definition race :: "nat \<Rightarrow> nat list \<Rightarrow> world \<Rightarrow> completion option" where
  "race n list w =
     new_CancelToken n
       (\<lambda>cancel. map (\<lambda>token. Subscribe token (Observer (CancelFn cancel) [CallCancelArg cancel] [])) list) w"

text \<open>
  \<^verbatim>\<open>static source() { let source = {}; source.token = new this(cancel => source.cancel = cancel); return source; }\<close>

  The setup only stores the trigger; \<open>source.cancel(m)\<close> is \<open>trigger\<close> on the new
  address.
\<close>

definition source :: "nat \<Rightarrow> world \<Rightarrow> completion option" where
  "source n w = new_CancelToken n (\<lambda>cancel. []) w"

definition empty_world :: world where
  "empty_world = \<lparr>heap = [], disposers = [], reported = [], calls = []\<rparr>"

section \<open>Sequences of public operations\<close>

text \<open>
  A client performs operations one after the other: it constructs tokens and calls
  methods. A call that throws leaves the client running (it may catch the exception),
  so the sequence goes on from the state the call left.
\<close>

datatype op = New "nat \<Rightarrow> stmt list" | Race "nat list" | Source | Call stmt

fun perform :: "nat \<Rightarrow> op \<Rightarrow> world \<Rightarrow> completion option" where
  "perform n (New fn) w = new_CancelToken n fn w"
| "perform n (Race list) w = race n list w"
| "perform n Source w = source n w"
| "perform n (Call s) w = exec n JUndefined [s] w"

fun run :: "nat \<Rightarrow> op list \<Rightarrow> world \<Rightarrow> world option" where
  "run n [] w = Some w"
| "run n (p # ps) w =
     (case perform n p w of None \<Rightarrow> None | Some c \<Rightarrow> run n ps (world_of c))"

section \<open>Notions used in the statements\<close>

text \<open>
  The state a \<open>try\<close>/\<open>catch\<close> around \<open>HostReportErrors\<close> continues from, and the
  exception a completion carries.
\<close>

definition caught :: "completion \<Rightarrow> world" where
  "caught c = (case c of Normal w \<Rightarrow> w | Throws e w \<Rightarrow> w\<lparr>reported := reported w @ [e]\<rparr>)"

fun thrown :: "completion \<Rightarrow> jsval option" where
  "thrown (Normal w) = None"
| "thrown (Throws e w) = Some e"

text \<open>
  \<open>extends w w'\<close>: \<open>w'\<close> has the same tokens as \<open>w\<close>, every reason set in \<open>w\<close> is still
  the reason in \<open>w'\<close>, and both logs of \<open>w'\<close> continue those of \<open>w\<close>.
\<close>

definition extends :: "world \<Rightarrow> world \<Rightarrow> bool" where
  "extends w w' \<longleftrightarrow>
     length (heap w') = length (heap w) \<and>
     (\<forall>u r. reason (heap w ! u) = Some r \<longrightarrow> reason (heap w' ! u) = Some r) \<and>
     prefix (calls w) (calls w') \<and>
     prefix (reported w) (reported w')"

text \<open>
  \<open>fresh_handles w\<close>: every handle in a set was made by a registration counted in
  \<open>disposers w\<close>, so that the handle of the next registration is in no set.
\<close>

definition fresh_handles :: "world \<Rightarrow> bool" where
  "fresh_handles w \<longleftrightarrow>
     list_all (\<lambda>tk. list_all (\<lambda>h. rid h < length (disposers w)) (observers tk)) (heap w)"

text \<open>The calls made and the errors reported between two worlds.\<close>

definition new_calls :: "world \<Rightarrow> world \<Rightarrow> event list" where
  "new_calls w w' = drop (length (calls w)) (calls w')"

definition new_reported :: "world \<Rightarrow> world \<Rightarrow> jsval list" where
  "new_reported w w' = drop (length (reported w)) (reported w')"

text \<open>
  Values whose conversion to a string runs no caller code: all but the objects with a
  \<open>toString\<close> method.
\<close>

fun plain :: "jsval \<Rightarrow> bool" where
  "plain (JCustom body s) = False"
| "plain m = True"

text \<open>
  Statements that do not call back into \<open>subscribe\<close> or a trigger, and observers whose
  callbacks consist of such statements.
\<close>

fun inert :: "stmt \<Rightarrow> bool" where
  "inert (Subscribe t ob) = False"
| "inert (CallCancel t m) = False"
| "inert (CallCancelArg t) = False"
| "inert (SubscribeObservable t ob) = True"
| "inert (Unsubscribe k) = True"
| "inert (ThrowIfRequested t) = True"
| "inert (Throw e) = True"

definition inert_observer :: "observer \<Rightarrow> bool" where
  "inert_observer ob \<longleftrightarrow> list_all inert (on_next ob) \<and> list_all inert (on_complete ob)"

text \<open>
  \<open>same_tokens w w'\<close>: the worlds have the same reasons and the same log of calls; they
  may differ in the observer sets and in the reported errors.
\<close>

definition same_tokens :: "world \<Rightarrow> world \<Rightarrow> bool" where
  "same_tokens w w' \<longleftrightarrow>
     length (heap w') = length (heap w) \<and> map reason (heap w') = map reason (heap w) \<and>
     calls w' = calls w"

text \<open>The calls one pass over the observers \<open>obs\<close> makes itself, for the reason value \<open>v\<close>.\<close>

definition deliveries :: "nat \<Rightarrow> jsval \<Rightarrow> observer list \<Rightarrow> event list" where
  "deliveries t v obs = concat (map (\<lambda>ob. [Next t (ident ob) v, Complete t (ident ob)]) obs)"

text \<open>\<open>is_next t i\<close> recognises the \<open>next\<close> notifications of observer \<open>i\<close> by token \<open>t\<close>.\<close>

fun is_next :: "nat \<Rightarrow> ident \<Rightarrow> event \<Rightarrow> bool" where
  "is_next t i (Next t' i' v) = (t' = t \<and> i' = i)"
| "is_next t i (Complete t' i') = False"

text \<open>The number a string of decimal digits denotes.\<close>

definition digit_value :: "char \<Rightarrow> nat" where
  "digit_value c = of_char c - 48"

definition decimal_value :: "string \<Rightarrow> nat" where
  "decimal_value ds = foldl (\<lambda>a c. 10 * a + digit_value c) 0 ds"

text \<open>
  \<open>decimal_of n ds\<close>: \<open>ds\<close> is the decimal numeral of \<open>n\<close>: digits only, at least one,
  no leading zero, and denoting \<open>n\<close>.
\<close>

definition decimal_of :: "nat \<Rightarrow> string \<Rightarrow> bool" where
  "decimal_of n ds \<longleftrightarrow>
     ds \<noteq> [] \<and> list_all (\<lambda>c. c \<in> set ''0123456789'') ds \<and>
     (hd ds = CHR ''0'' \<longrightarrow> ds = ''0'') \<and> decimal_value ds = n"

section \<open>Example states and observers\<close>

text \<open>
  A world with a pending token at address 0 and a cancelled one at address 1; it is
  the world after \<open>source()\<close>, \<open>source()\<close> and \<open>cancel("stop")\<close> on the second.
\<close>

definition cancelled_world :: world where
  "cancelled_world = \<lparr>heap = [\<lparr>reason = None, observers = []\<rparr>,
                              \<lparr>reason = Some (Cancel ''stop''), observers = []\<rparr>],
                      disposers = [], reported = [], calls = []\<rparr>"

text \<open>
  An observer of token 0 whose \<open>next\<close> callback subscribes a further observer to token 0
  the first time it runs. Token 1 serves as its flag: the callback begins with
  \<open>throwIfRequested\<close> on token 1 and cancels token 1 before it subscribes.
\<close>

definition resubscriber :: observer where
  "resubscriber =
     Observer (Object 1)
       [ThrowIfRequested 1, CallCancel 1 JUndefined, Subscribe 0 (Observer (Object 3) [] [])] []"

definition bystander :: observer where
  "bystander = Observer (Object 2) [] []"

text \<open>An observer both of whose callbacks throw.\<close>

definition thrower :: observer where
  "thrower = Observer (Object 4) [Throw (JStr ''next failed'')] [Throw (JStr ''complete failed'')]"

text \<open>
  An observer whose \<open>next\<close> callback polls token 1 and then token 0, and whose
  \<open>complete\<close> callback calls \<open>unsubscribe\<close> on a subscription that does not exist.
\<close>

definition poller :: observer where
  "poller = Observer (Object 5) [ThrowIfRequested 1, ThrowIfRequested 0] [Unsubscribe 9]"

text \<open>
  The world after \<open>source()\<close>, \<open>source()\<close> and subscribing \<open>thrower\<close>, \<open>poller\<close> and
  \<open>bystander\<close> to the first token, in this order; the state in which
  \<open>cancel("halt")\<close> on the first token then calls \<open>_dispatch\<close>; and the state the call
  ends in.
\<close>

definition watched_world :: world where
  "watched_world =
     \<lparr>heap = [\<lparr>reason = None,
               observers = [Handle 0 thrower, Handle 1 poller, Handle 2 bystander]\<rparr>,
              \<lparr>reason = None, observers = []\<rparr>],
      disposers = [0, 0, 0], reported = [], calls = []\<rparr>"

definition firing_world :: world where
  "firing_world =
     \<lparr>heap = [\<lparr>reason = Some (Cancel ''halt''),
               observers = [Handle 0 thrower, Handle 1 poller, Handle 2 bystander]\<rparr>,
              \<lparr>reason = None, observers = []\<rparr>],
      disposers = [0, 0, 0], reported = [], calls = []\<rparr>"

definition fired_world :: world where
  "fired_world =
     \<lparr>heap = [\<lparr>reason = Some (Cancel ''halt''), observers = []\<rparr>,
              \<lparr>reason = None, observers = []\<rparr>],
      disposers = [0, 0, 0],
      reported = [JStr ''next failed'', JStr ''complete failed'',
                  JObj (Cancel ''halt''), JStr ''TypeError''],
      calls = [Next 0 (Object 4) (JObj (Cancel ''halt'')), Complete 0 (Object 4),
               Next 0 (Object 5) (JObj (Cancel ''halt'')), Complete 0 (Object 5),
               Next 0 (Object 2) (JObj (Cancel ''halt'')), Complete 0 (Object 2)]\<rparr>"

text \<open>
  A message whose \<open>toString\<close> method calls the trigger of token 0 with
  \<open>"inner"\<close> and returns \<open>"outer"\<close>, and one whose \<open>toString\<close> method throws.
\<close>

definition reentrant_message :: jsval where
  "reentrant_message = JCustom [CallCancel 0 (JStr ''inner'')] ''outer''"

definition failing_message :: jsval where
  "failing_message = JCustom [Throw (JStr ''no string'')] ''first''"

section \<open>Basic facts\<close>

declare subscribe.simps [simp del] trigger.simps [simp del] dispatch.simps [simp del]

lemma try_catch_report: "try_catch c (\<lambda>e. HostReportErrors [e]) = Normal (caught c)"
  by (cases c) (simp_all add: caught_def)

lemma dispatch_loop_step:
  "dispatch_loop (Suc n) t (h # hs) w =
     (case exec n (reason_val t w) (on_next (target h))
             (record_call (Next t (ident (target h)) (reason_val t w)) w) of
        None \<Rightarrow> None
      | Some c1 \<Rightarrow>
          (case exec n JUndefined (on_complete (target h))
                  (record_call (Complete t (ident (target h))) (caught c1)) of
             None \<Rightarrow> None
           | Some c2 \<Rightarrow> dispatch_loop (Suc n) t hs (caught c2)))"
  by (simp add: try_catch_report split: option.splits)

declare dispatch_loop.simps(3) [simp del]

lemma heap_upd_token:
  "heap (upd_token t f w) ! u =
     (if u = t \<and> t < length (heap w) then f (heap w ! t) else heap w ! u)"
  by (cases "t < length (heap w)") (auto simp: upd_token_def list_update_beyond)

lemma length_heap_upd_token [simp]: "length (heap (upd_token t f w)) = length (heap w)"
  by (simp add: upd_token_def)

lemma calls_upd_token [simp]: "calls (upd_token t f w) = calls w"
  by (simp add: upd_token_def)

lemma reported_upd_token [simp]: "reported (upd_token t f w) = reported w"
  by (simp add: upd_token_def)

lemma disposers_upd_token [simp]: "disposers (upd_token t f w) = disposers w"
  by (simp add: upd_token_def)

lemma record_call_simps [simp]:
  "heap (record_call e w) = heap w"
  "reported (record_call e w) = reported w"
  "disposers (record_call e w) = disposers w"
  "calls (record_call e w) = calls w @ [e]"
  by (simp_all add: record_call_def)

lemma caught_simps [simp]:
  "heap (caught c) = heap (world_of c)"
  "calls (caught c) = calls (world_of c)"
  "disposers (caught c) = disposers (world_of c)"
  by (cases c; simp add: caught_def)+

lemma toString_call_plain: "plain m \<Longrightarrow> toString_call n m w = Some (Normal w)"
  by (cases m) simp_all

lemma frame_rule:
  assumes R_refl: "\<And>w. R w w"
    and R_trans: "\<And>w1 w2 w3. R w1 w2 \<Longrightarrow> R w2 w3 \<Longrightarrow> R w1 w3"
    and R_unsub: "\<And>k w. R w (unsubscribe k w)"
    and R_sub: "\<And>t ob w. R w (Observable_subscribe t ob w)"
    and R_set: "\<And>t r w w1. reason (heap w ! t) = None \<Longrightarrow> R w w1 \<Longrightarrow>
                  R w (upd_token t (\<lambda>tk. tk\<lparr>reason := Some r\<rparr>) w1)"
    and R_clear: "\<And>t w. R w (upd_token t (\<lambda>tk. tk\<lparr>observers := []\<rparr>) w)"
    and R_call: "\<And>e w. R w (record_call e w)"
    and R_report: "\<And>e w. R w (w\<lparr>reported := reported w @ [e]\<rparr>)"
  shows "exec n x body w = Some c \<Longrightarrow> R w (world_of c)"
    and "subscribe n t ob w = Some c \<Longrightarrow> R w (world_of c)"
    and "trigger n t m w = Some c \<Longrightarrow> R w (world_of c)"
    and "toString_call n m w = Some c \<Longrightarrow> R w (world_of c)"
    and "dispatch n t w = Some c \<Longrightarrow> R w (world_of c)"
    and "dispatch_loop n t hs w = Some c \<Longrightarrow> R w (world_of c)"
proof (induction n x body w and n t ob w and n t m w and n m w and n t w and n t hs w
       arbitrary: c and c and c and c and c and c
       rule: exec_subscribe_trigger_toString_call_dispatch_dispatch_loop.induct)
  case (1 n x w)
  then show ?case by (auto intro: R_refl)
next
  case (2 n x e body w)
  then show ?case by (auto intro: R_refl)
next
  case (3 n x t ob body w)
  then show ?case
    by (auto split: if_splits option.splits completion.splits intro: R_refl R_trans)
next
  case (4 n x t ob body w)
  then show ?case
    by (auto split: if_splits intro: R_refl R_trans[OF R_sub])
next
  case (5 n x k body w)
  then show ?case
    by (auto split: if_splits intro: R_refl R_trans[OF R_unsub])
next
  case (6 n x t m body w)
  then show ?case
    by (auto split: if_splits option.splits completion.splits intro: R_refl R_trans)
next
  case (7 n x t body w)
  then show ?case
    by (auto split: if_splits option.splits completion.splits intro: R_refl R_trans)
next
  case (8 n x t body w)
  then show ?case
    by (auto simp: throwIfRequested_def split: if_splits option.splits intro: R_refl)
next
  case (9 n t ob w)
  then show ?case
    by (auto simp: subscribe.simps Let_def split: if_splits intro: R_sub R_trans[OF R_sub])
next
  case (10 n t m w)
  show ?case
  proof (cases "reason (heap w ! t) = None")
    case True
    with "10.prems" obtain c0 where s: "toString_call n m w = Some c0"
      by (auto simp: trigger.simps split: option.splits)
    from "10.IH"(1)[OF True s] have r0: "R w (world_of c0)" .
    show ?thesis
    proof (cases c0)
      case (Normal w1)
      with True s "10.prems" have
        d: "dispatch n t (upd_token t (\<lambda>tk. tk\<lparr>reason := Some (new_Cancel m)\<rparr>) w1) = Some c"
        by (simp add: trigger.simps)
      from R_set[OF True] r0 Normal have
        "R w (upd_token t (\<lambda>tk. tk\<lparr>reason := Some (new_Cancel m)\<rparr>) w1)" by simp
      then show ?thesis using "10.IH"(2)[OF True s Normal d] by (rule R_trans)
    next
      case (Throws e w1)
      with True s "10.prems" have "c = c0" by (simp add: trigger.simps)
      with r0 show ?thesis by simp
    qed
  next
    case False
    with "10.prems" show ?thesis by (auto simp: trigger.simps intro: R_refl)
  qed
next
  case (11 n w)
  then show ?case by (auto intro: R_refl)
next
  case (12 n w)
  then show ?case by (auto intro: R_refl)
next
  case (13 n b w)
  then show ?case by (auto intro: R_refl)
next
  case (14 n k w)
  then show ?case by (auto intro: R_refl)
next
  case (15 n s w)
  then show ?case by (auto intro: R_refl)
next
  case (16 n r w)
  then show ?case by (auto intro: R_refl)
next
  case (17 body s w)
  then show ?case by simp
next
  case (18 n body s w)
  then show ?case by simp
next
  case (19 n t w)
  then show ?case
    by (auto simp: dispatch.simps split: option.splits completion.splits
          intro: R_trans[OF _ R_clear])
next
  case (20 n t w)
  then show ?case by (auto intro: R_refl)
next
  case (21 t h hs w)
  then show ?case by simp
next
  case (22 n t h hs w)
  from "22.prems" obtain c1 c2 where
    e1: "exec n (reason_val t w) (on_next (target h))
           (record_call (Next t (ident (target h)) (reason_val t w)) w) = Some c1"
    and e2: "exec n JUndefined (on_complete (target h))
           (record_call (Complete t (ident (target h))) (caught c1)) = Some c2"
    and e3: "dispatch_loop (Suc n) t hs (caught c2) = Some c"
    by (auto simp: dispatch_loop_step simp del: dispatch_loop.simps split: option.splits)
  have caughtR: "\<And>c. R (world_of c) (caught c)"
    subgoal for c by (cases c) (auto simp: caught_def intro: R_refl R_report)
    done
  have r1: "R w (caught c1)"
    using "22.IH"(1)[OF e1] R_call R_trans caughtR by blast
  have r2: "R (caught c1) (caught c2)"
    using "22.IH"(2)[OF e1 try_catch_report e2] R_call R_trans caughtR by blast
  have r3: "R (caught c2) (world_of c)"
    using "22.IH"(3)[OF e1 try_catch_report e2 try_catch_report e3] .
  show ?case using r1 r2 r3 R_trans by blast
qed

lemma extends_refl: "extends w w"
  by (simp add: extends_def)

lemma extends_trans: "extends w1 w2 \<Longrightarrow> extends w2 w3 \<Longrightarrow> extends w1 w3"
  unfolding extends_def by (metis prefix_order.order_trans)

lemma extends_upd_observers:
  "extends w (upd_token t (\<lambda>tk. tk\<lparr>observers := f (observers tk)\<rparr>) w)"
  by (simp add: extends_def heap_upd_token)

lemma extends_subscribe: "extends w (Observable_subscribe t ob w)"
  by (simp add: extends_def Observable_subscribe_def heap_upd_token)

lemma extends_unsubscribe: "extends w (unsubscribe k w)"
  by (simp add: unsubscribe_def extends_upd_observers)

lemma extends_set_reason:
  "reason (heap w ! t) = None \<Longrightarrow> extends w w1 \<Longrightarrow>
   extends w (upd_token t (\<lambda>tk. tk\<lparr>reason := Some r\<rparr>) w1)"
  by (auto simp add: extends_def heap_upd_token)

lemma extends_record_call: "extends w (record_call e w)"
  by (simp add: extends_def)

lemma extends_report: "extends w (w\<lparr>reported := reported w @ [e]\<rparr>)"
  by (simp add: extends_def)

lemma extends_caught: "extends (world_of c) (caught c)"
  by (cases c) (simp_all add: caught_def extends_refl extends_report)

lemma extends_all:
  shows exec_extends: "exec n x body w = Some c \<Longrightarrow> extends w (world_of c)"
    and subscribe_extends: "subscribe n t ob w = Some c \<Longrightarrow> extends w (world_of c)"
    and trigger_extends: "trigger n t m w = Some c \<Longrightarrow> extends w (world_of c)"
    and toString_call_extends: "toString_call n m w = Some c \<Longrightarrow> extends w (world_of c)"
    and dispatch_extends: "dispatch n t w = Some c \<Longrightarrow> extends w (world_of c)"
    and dispatch_loop_extends: "dispatch_loop n t hs w = Some c \<Longrightarrow> extends w (world_of c)"
  by (erule frame_rule[where R = extends, rotated -1];
      (rule extends_refl extends_record_call extends_report extends_subscribe
            extends_unsubscribe
        | erule (1) extends_trans
        | erule (1) extends_set_reason
        | rule extends_upd_observers[where f = "\<lambda>_. []", simplified]))+

lemma dispatch_loop_Normal: "dispatch_loop n t hs w = Some c \<Longrightarrow> \<exists>w'. c = Normal w'"
proof (induction hs arbitrary: w)
  case Nil
  then show ?case by auto
next
  case (Cons h hs)
  then show ?case
    by (cases n) (auto simp: dispatch_loop_step simp del: dispatch_loop.simps(3) split: option.splits)
qed

lemma dispatch_Normal: "dispatch n t w = Some c \<Longrightarrow> \<exists>w'. c = Normal w'"
  by (auto simp: dispatch.simps split: option.splits completion.splits
        dest: dispatch_loop_Normal)

lemma subscribe_Normal: "subscribe n t ob w = Some c \<Longrightarrow> \<exists>w'. c = Normal w'"
  by (auto simp: subscribe.simps Let_def split: if_splits dest: dispatch_Normal)

lemma trigger_Throws:
  "trigger n t m w = Some (Throws e w') \<Longrightarrow> toString_call n m w = Some (Throws e w')"
  by (auto simp: trigger.simps split: if_splits option.splits completion.splits
        dest: dispatch_Normal)

lemma trigger_plain_Normal:
  "plain m \<Longrightarrow> trigger n t m w = Some c \<Longrightarrow> \<exists>w'. c = Normal w'"
  by (cases c) (auto dest: trigger_Throws simp: toString_call_plain)

lemma extends_reason:
  "extends w w' \<Longrightarrow> reason (heap w ! u) = Some r \<Longrightarrow> reason (heap w' ! u) = Some r"
  by (simp add: extends_def)

lemma extends_length: "extends w w' \<Longrightarrow> length (heap w') = length (heap w)"
  by (simp add: extends_def)

lemma trigger_SomeD:
  assumes "reason (heap w ! t) = None" and "trigger n t m w = Some (Normal w')"
  obtains w1 where "toString_call n m w = Some (Normal w1)"
    and "dispatch n t (upd_token t (\<lambda>tk. tk\<lparr>reason := Some (new_Cancel m)\<rparr>) w1) =
           Some (Normal w')"
  using assms
  by (auto simp: trigger.simps split: option.splits completion.splits)

lemma trigger_pending_reason:
  assumes "t < length (heap w)" and "reason (heap w ! t) = None"
    and "trigger n t m w = Some (Normal w')"
  shows "reason (heap w' ! t) = Some (new_Cancel m)"
proof -
  from assms(2,3) obtain w1 where s: "toString_call n m w = Some (Normal w1)"
    and d: "dispatch n t (upd_token t (\<lambda>tk. tk\<lparr>reason := Some (new_Cancel m)\<rparr>) w1) =
           Some (Normal w')"
    by (rule trigger_SomeD)
  let ?w2 = "upd_token t (\<lambda>tk. tk\<lparr>reason := Some (new_Cancel m)\<rparr>) w1"
  have "length (heap w1) = length (heap w)"
    using extends_length[OF toString_call_extends[OF s]] by simp
  with assms(1) have "reason (heap ?w2 ! t) = Some (new_Cancel m)"
    by (simp add: heap_upd_token)
  with dispatch_extends[OF d] show ?thesis
    by (auto dest: extends_reason)
qed

lemma source_eq: "source n w = Some (Normal (alloc w))"
  by (simp add: source_def new_CancelToken_def)

lemma alloc_simps [simp]:
  "length (heap (alloc w)) = Suc (length (heap w))"
  "heap (alloc w) ! length (heap w) = \<lparr>reason = None, observers = []\<rparr>"
  "u < length (heap w) \<Longrightarrow> heap (alloc w) ! u = heap w ! u"
  "calls (alloc w) = calls w"
  "reported (alloc w) = reported w"
  "disposers (alloc w) = disposers w"
  by (simp_all add: alloc_def nth_append)

lemma dispatch_SomeD:
  assumes "dispatch n t w = Some c"
  obtains w' where "dispatch_loop n t (observers (heap w ! t)) w = Some (Normal w')"
    and "c = Normal (upd_token t (\<lambda>tk. tk\<lparr>observers := []\<rparr>) w')"
  using assms
  by (auto simp: dispatch.simps split: option.splits completion.splits
        dest: dispatch_loop_Normal)

lemma dispatch_loop_ConsD:
  assumes "dispatch_loop n t (h # hs) w = Some c"
  obtains k c1 c2 where "n = Suc k"
    and "exec k (reason_val t w) (on_next (target h))
           (record_call (Next t (ident (target h)) (reason_val t w)) w) = Some c1"
    and "exec k JUndefined (on_complete (target h))
           (record_call (Complete t (ident (target h))) (caught c1)) = Some c2"
    and "dispatch_loop n t hs (caught c2) = Some c"
  using assms
  by (cases n)
     (auto simp: dispatch_loop_step simp del: dispatch_loop.simps(3) split: option.splits)

lemma extends_calls: "extends w w' \<Longrightarrow> \<exists>xs. calls w' = calls w @ xs"
  by (auto simp: extends_def prefix_def)

lemma extends_reported: "extends w w' \<Longrightarrow> \<exists>xs. reported w' = reported w @ xs"
  by (auto simp: extends_def prefix_def)

lemma reason_val_Some: "reason (heap w ! t) = Some r \<Longrightarrow> reason_val t w = JObj r"
  by (simp add: reason_val_def)

lemma notify_calls:
  assumes e1: "exec k (reason_val t w) (on_next ob)
           (record_call (Next t (ident ob) (reason_val t w)) w) = Some c1"
    and e2: "exec k JUndefined (on_complete ob)
           (record_call (Complete t (ident ob)) (caught c1)) = Some c2"
  shows "\<exists>xs ys. calls (caught c2) =
           calls w @ Next t (ident ob) (reason_val t w) # xs @ Complete t (ident ob) # ys"
    and "extends w (caught c2)"
proof -
  from exec_extends[OF e1] have x1: "extends (record_call (Next t (ident ob) (reason_val t w)) w) (world_of c1)" .
  from exec_extends[OF e2] have x2: "extends (record_call (Complete t (ident ob)) (caught c1)) (world_of c2)" .
  from extends_calls[OF x1] obtain xs where
    "calls (world_of c1) = calls w @ Next t (ident ob) (reason_val t w) # xs" by auto
  moreover from extends_calls[OF x2] obtain ys where
    "calls (world_of c2) = calls (world_of c1) @ Complete t (ident ob) # ys" by auto
  ultimately show "\<exists>xs ys. calls (caught c2) =
           calls w @ Next t (ident ob) (reason_val t w) # xs @ Complete t (ident ob) # ys"
    by auto
  have "extends w (caught c1)"
    using extends_trans[OF extends_record_call x1] extends_caught extends_trans by blast
  then show "extends w (caught c2)"
    using extends_trans[OF extends_record_call x2] extends_caught extends_trans by blast
qed

lemma dispatch_loop_delivers:
  assumes "dispatch_loop n t hs w = Some c" and "h \<in> set hs"
    and "reason (heap w ! t) = Some r"
  shows "\<exists>pre xs ys. calls (world_of c) =
           calls w @ pre @ Next t (ident (target h)) (JObj r) # xs @
             Complete t (ident (target h)) # ys"
  using assms
proof (induction hs arbitrary: w)
  case Nil
  then show ?case by simp
next
  case (Cons a hs)
  from Cons.prems(1) obtain k c1 c2 where n: "n = Suc k"
    and e1: "exec k (reason_val t w) (on_next (target a))
           (record_call (Next t (ident (target a)) (reason_val t w)) w) = Some c1"
    and e2: "exec k JUndefined (on_complete (target a))
           (record_call (Complete t (ident (target a))) (caught c1)) = Some c2"
    and e3: "dispatch_loop n t hs (caught c2) = Some c"
    by (rule dispatch_loop_ConsD)
  from notify_calls[OF e1 e2] obtain xs ys where
    cs: "calls (caught c2) =
           calls w @ Next t (ident (target a)) (reason_val t w) # xs @
             Complete t (ident (target a)) # ys"
    and ex: "extends w (caught c2)" by auto
  show ?case
  proof (cases "h = a")
    case True
    from extends_calls[OF dispatch_loop_extends[OF e3]] obtain zs where
      "calls (world_of c) = calls (caught c2) @ zs" by auto
    with cs True show ?thesis
      by (intro exI[of _ "[]"] exI[of _ xs] exI[of _ "ys @ zs"])
         (simp add: reason_val_Some[OF Cons.prems(3)])
  next
    case False
    with Cons.prems(2) have "h \<in> set hs" by simp
    moreover have "reason (heap (caught c2) ! t) = Some r"
      using extends_reason[OF ex Cons.prems(3)] .
    ultimately obtain pre xs' ys' where
      "calls (world_of c) =
         calls (caught c2) @ pre @ Next t (ident (target h)) (JObj r) # xs' @
           Complete t (ident (target h)) # ys'"
      using Cons.IH[OF e3] by blast
    with cs show ?thesis
      by (metis append.assoc)
  qed
qed

lemma Set_add_member: "h \<in> set (Set_add h hs)"
  by (simp add: Set_add_def)

lemma subscribe_cancelled:
  assumes "t < length (heap w)" and "reason (heap w ! t) = Some r"
    and "subscribe n t ob w = Some c"
  shows "dispatch n t (Observable_subscribe t ob w) = Some c"
    and "reason (heap (Observable_subscribe t ob w) ! t) = Some r"
    and "observers (heap (Observable_subscribe t ob w) ! t) =
           Set_add (Handle (length (disposers w)) ob) (observers (heap w ! t))"
  using assms by (simp_all add: subscribe.simps Observable_subscribe_def heap_upd_token)

lemma subscribe_delivers:
  assumes "t < length (heap w)" and "reason (heap w ! t) = Some r"
    and "subscribe n t ob w = Some c"
  shows "\<exists>w' pre xs ys. c = Normal w' \<and> observers (heap w' ! t) = [] \<and> calls w' =
           calls w @ pre @ Next t (ident ob) (JObj r) # xs @ Complete t (ident ob) # ys"
proof -
  let ?w1 = "Observable_subscribe t ob w"
  let ?h = "Handle (length (disposers w)) ob"
  note s = subscribe_cancelled[OF assms]
  from s(1) obtain w2 where
    l: "dispatch_loop n t (observers (heap ?w1 ! t)) ?w1 = Some (Normal w2)"
    and c: "c = Normal (upd_token t (\<lambda>tk. tk\<lparr>observers := []\<rparr>) w2)"
    by (rule dispatch_SomeD)
  have "?h \<in> set (observers (heap ?w1 ! t))"
    unfolding s(3) by (rule Set_add_member)
  from dispatch_loop_delivers[OF l this s(2)] obtain pre xs ys where
    "calls w2 = calls ?w1 @ pre @ Next t (ident ob) (JObj r) # xs @ Complete t (ident ob) # ys"
    by auto
  moreover have "length (heap w2) = length (heap w)"
    using extends_length[OF dispatch_loop_extends[OF l]] by (simp add: Observable_subscribe_def)
  ultimately show ?thesis
    using c assms(1) by (auto simp add: heap_upd_token Observable_subscribe_def)
qed

section \<open>Callbacks that do not call back\<close>

lemma map_reason_upd_token:
  "(\<And>tk. reason (f tk) = reason tk) \<Longrightarrow>
   map reason (heap (upd_token t f w)) = map reason (heap w)"
  by (rule nth_equalityI) (simp_all add: heap_upd_token)

lemma same_tokens_refl: "same_tokens w w"
  by (simp add: same_tokens_def)

lemma same_tokens_trans: "same_tokens a b \<Longrightarrow> same_tokens b c \<Longrightarrow> same_tokens a c"
  by (simp add: same_tokens_def)

lemma same_tokens_unsubscribe: "same_tokens w (unsubscribe k w)"
  by (simp add: same_tokens_def unsubscribe_def map_reason_upd_token)

lemma same_tokens_subscribe: "same_tokens w (Observable_subscribe t ob w)"
proof -
  have "map reason (heap (upd_token t (\<lambda>tk. tk\<lparr>observers := f (observers tk)\<rparr>) w0)) =
          map reason (heap w0)" for f w0
    by (simp add: map_reason_upd_token)
  then show ?thesis
    by (simp add: same_tokens_def Observable_subscribe_def)
qed

lemma same_tokens_reason:
  "same_tokens w w' \<Longrightarrow> t < length (heap w) \<Longrightarrow> reason (heap w' ! t) = reason (heap w ! t)"
  unfolding same_tokens_def by (metis nth_map)

lemma exec_inert:
  "list_all inert body \<Longrightarrow> \<exists>c. exec n x body w = Some c \<and> same_tokens w (world_of c)"
proof (induction body arbitrary: w)
  case Nil
  then show ?case by (simp add: same_tokens_refl)
next
  case (Cons s body)
  then have b: "list_all inert body" by simp
  from Cons.prems show ?case
  proof (cases s)
    case (SubscribeObservable t ob)
    from Cons.IH[OF b, of "Observable_subscribe t ob w"] show ?thesis
      using SubscribeObservable
      by (auto simp: same_tokens_refl intro: same_tokens_trans[OF same_tokens_subscribe])
  next
    case (Unsubscribe k)
    from Cons.IH[OF b, of "unsubscribe k w"] show ?thesis
      using Unsubscribe
      by (auto simp: same_tokens_refl intro: same_tokens_trans[OF same_tokens_unsubscribe])
  next
    case (ThrowIfRequested t)
    from Cons.IH[OF b, of w] show ?thesis
      using ThrowIfRequested
      by (auto simp: same_tokens_refl throwIfRequested_def split: option.splits)
  qed (simp_all add: same_tokens_refl)
qed

lemma same_tokens_record_call:
  "same_tokens (record_call e w) w' \<Longrightarrow>
   length (heap w') = length (heap w) \<and> map reason (heap w') = map reason (heap w) \<and>
   calls w' = calls w @ [e]"
  by (simp add: same_tokens_def)

lemma dispatch_loop_inert:
  assumes "list_all (\<lambda>h. inert_observer (target h)) hs" and "t < length (heap w)"
  shows "\<exists>w'. dispatch_loop (Suc n) t hs w = Some (Normal w') \<and>
           length (heap w') = length (heap w) \<and> map reason (heap w') = map reason (heap w) \<and>
           calls w' = calls w @ deliveries t (reason_val t w) (map target hs)"
  using assms
proof (induction hs arbitrary: w)
  case Nil
  then show ?case by (simp add: deliveries_def)
next
  case (Cons h hs)
  let ?v = "reason_val t w"
  let ?ob = "target h"
  from Cons.prems(1) have "inert_observer ?ob"
    and rest: "list_all (\<lambda>h. inert_observer (target h)) hs"
    by simp_all
  then have i1: "list_all inert (on_next ?ob)" and i2: "list_all inert (on_complete ?ob)"
    by (simp_all add: inert_observer_def)
  from exec_inert[OF i1, of n ?v "record_call (Next t (ident ?ob) ?v) w"] obtain c1 where
    e1: "exec n ?v (on_next ?ob) (record_call (Next t (ident ?ob) ?v) w) = Some c1"
    and s1: "same_tokens (record_call (Next t (ident ?ob) ?v) w) (world_of c1)" by blast
  from exec_inert[OF i2, of n JUndefined "record_call (Complete t (ident ?ob)) (caught c1)"]
  obtain c2 where
    e2: "exec n JUndefined (on_complete ?ob) (record_call (Complete t (ident ?ob)) (caught c1)) = Some c2"
    and s2: "same_tokens (record_call (Complete t (ident ?ob)) (caught c1)) (world_of c2)" by blast
  have k1: "length (heap (caught c1)) = length (heap w)"
       "map reason (heap (caught c1)) = map reason (heap w)"
       "calls (caught c1) = calls w @ [Next t (ident ?ob) ?v]"
    using same_tokens_record_call[OF s1] by simp_all
  have k2: "length (heap (caught c2)) = length (heap w)"
       "map reason (heap (caught c2)) = map reason (heap w)"
       "calls (caught c2) = calls w @ [Next t (ident ?ob) ?v, Complete t (ident ?ob)]"
    using same_tokens_record_call[OF s2] k1 by simp_all
  have v: "reason_val t (caught c2) = ?v"
    using k2(2) Cons.prems(2) k2(1) unfolding reason_val_def by (metis nth_map)
  from Cons.IH[OF rest, of "caught c2"] Cons.prems(2) k2(1) obtain w' where
    "dispatch_loop (Suc n) t hs (caught c2) = Some (Normal w')"
    "length (heap w') = length (heap w)" "map reason (heap w') = map reason (heap w)"
    "calls w' = calls (caught c2) @ deliveries t ?v (map target hs)"
    using k2 v by auto
  then show ?case
    using e1 e2 k2(3) by (simp add: dispatch_loop_step deliveries_def)
qed

lemma subscribe_inert:
  assumes "t < length (heap w)" and "reason (heap w ! t) = Some r"
    and "observers (heap w ! t) = []" and "inert_observer ob"
  shows "\<exists>w'. subscribe (Suc n) t ob w = Some (Normal w') \<and> observers (heap w' ! t) = [] \<and>
           calls w' = calls w @ [Next t (ident ob) (JObj r), Complete t (ident ob)]"
proof -
  let ?w1 = "Observable_subscribe t ob w"
  let ?h = "Handle (length (disposers w)) ob"
  have o: "observers (heap ?w1 ! t) = [?h]" and r: "reason (heap ?w1 ! t) = Some r"
    and l: "t < length (heap ?w1)" and c: "calls ?w1 = calls w"
    using assms by (simp_all add: Observable_subscribe_def heap_upd_token Set_add_def)
  from dispatch_loop_inert[of "[?h]" t ?w1 n] assms(4) l obtain w2 where
    "dispatch_loop (Suc n) t [?h] ?w1 = Some (Normal w2)"
    "length (heap w2) = length (heap ?w1)"
    "calls w2 = calls ?w1 @ deliveries t (reason_val t ?w1) [ob]"
    by auto
  then show ?thesis
    using o r l c
    by (simp add: subscribe.simps dispatch.simps Let_def heap_upd_token deliveries_def
          reason_val_Some)
qed

lemma trigger_inert:
  assumes "t < length (heap w)" and "reason (heap w ! t) = None" and "plain m"
    and "list_all (\<lambda>h. inert_observer (target h)) (observers (heap w ! t))"
  shows "\<exists>w'. trigger (Suc n) t m w = Some (Normal w') \<and> observers (heap w' ! t) = [] \<and>
           reason (heap w' ! t) = Some (new_Cancel m) \<and>
           calls w' = calls w @
             deliveries t (JObj (new_Cancel m)) (map target (observers (heap w ! t)))"
proof -
  let ?w1 = "upd_token t (\<lambda>tk. tk\<lparr>reason := Some (new_Cancel m)\<rparr>) w"
  have o: "observers (heap ?w1 ! t) = observers (heap w ! t)"
    and r: "reason (heap ?w1 ! t) = Some (new_Cancel m)"
    and l: "t < length (heap ?w1)" and c: "calls ?w1 = calls w"
    using assms by (simp_all add: heap_upd_token)
  from dispatch_loop_inert[OF assms(4) l, of n] obtain w2 where
    w2: "dispatch_loop (Suc n) t (observers (heap w ! t)) ?w1 = Some (Normal w2)"
    "length (heap w2) = length (heap ?w1)"
    "map reason (heap w2) = map reason (heap ?w1)"
    "calls w2 = calls ?w1 @ deliveries t (reason_val t ?w1) (map target (observers (heap w ! t)))"
    by auto
  have "reason (heap w2 ! t) = Some (new_Cancel m)"
    using w2(2,3) l r by (metis nth_map)
  with w2 show ?thesis
    using o r l c assms(2,3)
    by (simp add: trigger.simps dispatch.simps heap_upd_token reason_val_Some
          toString_call_plain)
qed

section \<open>The passes\<close>

lemma dispatch_loop_subseq:
  assumes "dispatch_loop n t hs w = Some c" and "reason (heap w ! t) = Some r"
  shows "\<exists>new. calls (world_of c) = calls w @ new \<and>
           subseq (deliveries t (JObj r) (map target hs)) new"
  using assms
proof (induction hs arbitrary: w)
  case Nil
  then show ?case by (auto simp: deliveries_def)
next
  case (Cons a hs)
  from Cons.prems(1) obtain k c1 c2 where n: "n = Suc k"
    and e1: "exec k (reason_val t w) (on_next (target a))
           (record_call (Next t (ident (target a)) (reason_val t w)) w) = Some c1"
    and e2: "exec k JUndefined (on_complete (target a))
           (record_call (Complete t (ident (target a))) (caught c1)) = Some c2"
    and e3: "dispatch_loop n t hs (caught c2) = Some c"
    by (rule dispatch_loop_ConsD)
  from notify_calls[OF e1 e2] obtain xs ys where
    cs: "calls (caught c2) =
           calls w @ Next t (ident (target a)) (JObj r) # xs @ Complete t (ident (target a)) # ys"
    and ex: "extends w (caught c2)"
    unfolding reason_val_Some[OF Cons.prems(2)] by auto
  from Cons.IH[OF e3 extends_reason[OF ex Cons.prems(2)]] obtain new where
    new: "calls (world_of c) = calls (caught c2) @ new"
      "subseq (deliveries t (JObj r) (map target hs)) new" by blast
  have "subseq (Next t (ident (target a)) (JObj r) # Complete t (ident (target a)) #
                  deliveries t (JObj r) (map target hs))
          (Next t (ident (target a)) (JObj r) # xs @ Complete t (ident (target a)) # ys @ new)"
    using new(2) by (auto intro!: list_emb_append2 subseq_Cons2)
  then show ?case
    using cs new(1) by (simp add: deliveries_def)
qed

lemma dispatch_loop_split:
  assumes "dispatch_loop n t (pre @ h # post) w = Some c"
  shows "\<exists>k w1 c1 c2. n = Suc k \<and>
           dispatch_loop n t pre w = Some (Normal w1) \<and>
           exec k (reason_val t w1) (on_next (target h))
             (record_call (Next t (ident (target h)) (reason_val t w1)) w1) = Some c1 \<and>
           exec k JUndefined (on_complete (target h))
             (record_call (Complete t (ident (target h))) (caught c1)) = Some c2 \<and>
           dispatch_loop n t post (caught c2) = Some c"
  using assms
proof (induction pre arbitrary: w)
  case Nil
  from Nil.prems obtain k c1 c2 where "n = Suc k"
    and "exec k (reason_val t w) (on_next (target h))
           (record_call (Next t (ident (target h)) (reason_val t w)) w) = Some c1"
    and "exec k JUndefined (on_complete (target h))
           (record_call (Complete t (ident (target h))) (caught c1)) = Some c2"
    and "dispatch_loop n t post (caught c2) = Some c"
    by (auto elim: dispatch_loop_ConsD)
  then show ?case by simp
next
  case (Cons a pre)
  from Cons.prems obtain k a1 a2 where n: "n = Suc k"
    and e1: "exec k (reason_val t w) (on_next (target a))
           (record_call (Next t (ident (target a)) (reason_val t w)) w) = Some a1"
    and e2: "exec k JUndefined (on_complete (target a))
           (record_call (Complete t (ident (target a))) (caught a1)) = Some a2"
    and e3: "dispatch_loop n t (pre @ h # post) (caught a2) = Some c"
    by (auto elim: dispatch_loop_ConsD)
  from Cons.IH[OF e3] obtain k' w1 c1 c2 where k': "n = Suc k'"
    and p: "dispatch_loop n t pre (caught a2) = Some (Normal w1)"
    and x1: "exec k' (reason_val t w1) (on_next (target h))
           (record_call (Next t (ident (target h)) (reason_val t w1)) w1) = Some c1"
    and x2: "exec k' JUndefined (on_complete (target h))
           (record_call (Complete t (ident (target h))) (caught c1)) = Some c2"
    and x3: "dispatch_loop n t post (caught c2) = Some c"
    by blast
  have "dispatch_loop n t (a # pre) w = Some (Normal w1)"
    using n e1 e2 p by (simp add: dispatch_loop_step)
  with k' x1 x2 x3 show ?case by blast
qed

lemma caught_thrown:
  "thrown c = Some e \<Longrightarrow> reported (caught c) = reported (world_of c) @ [e]"
  by (cases c) (simp_all add: caught_def)

lemma extends_new_reported:
  "extends w w' \<Longrightarrow> reported w' = reported w @ new_reported w w'"
  by (auto simp: extends_def prefix_def new_reported_def)

lemma extends_new_calls:
  "extends w w' \<Longrightarrow> calls w' = calls w @ new_calls w w'"
  by (auto simp: extends_def prefix_def new_calls_def)

lemma dispatch_loop_reports:
  assumes p: "dispatch_loop n t pre w = Some (Normal w1)"
    and e1: "exec k (reason_val t w1) (on_next (target h))
           (record_call (Next t (ident (target h)) (reason_val t w1)) w1) = Some c1"
    and e2: "exec k JUndefined (on_complete (target h))
           (record_call (Complete t (ident (target h))) (caught c1)) = Some c2"
    and e3: "dispatch_loop n t post (caught c2) = Some c"
    and th: "thrown c1 = Some e \<or> thrown c2 = Some e"
  shows "e \<in> set (new_reported w (world_of c))"
proof -
  have a: "extends w w1" using dispatch_loop_extends[OF p] by simp
  have b: "extends w1 (world_of c1)"
    using extends_trans[OF extends_record_call exec_extends[OF e1]] .
  have b': "extends (world_of c1) (caught c1)" by (rule extends_caught)
  have d: "extends (caught c1) (world_of c2)"
    using extends_trans[OF extends_record_call exec_extends[OF e2]] .
  have d': "extends (world_of c2) (caught c2)" by (rule extends_caught)
  have f: "extends (caught c2) (world_of c)" by (rule dispatch_loop_extends[OF e3])
  from th show ?thesis
  proof
    assume t1: "thrown c1 = Some e"
    have "extends w (world_of c1)" using a b extends_trans by blast
    then obtain xs where xs: "reported (world_of c1) = reported w @ xs"
      using extends_reported by blast
    have "extends (caught c1) (world_of c)" using d d' f extends_trans by blast
    then obtain ys where ys: "reported (world_of c) = reported (caught c1) @ ys"
      using extends_reported by blast
    from caught_thrown[OF t1] xs ys
    have "reported (world_of c) = reported w @ xs @ e # ys" by simp
    then show ?thesis by (simp add: new_reported_def)
  next
    assume t2: "thrown c2 = Some e"
    have "extends w (world_of c2)" using a b b' d extends_trans by blast
    then obtain xs where xs: "reported (world_of c2) = reported w @ xs"
      using extends_reported by blast
    from f obtain ys where ys: "reported (world_of c) = reported (caught c2) @ ys"
      using extends_reported by blast
    from caught_thrown[OF t2] xs ys
    have "reported (world_of c) = reported w @ xs @ e # ys" by simp
    then show ?thesis by (simp add: new_reported_def)
  qed
qed

lemma exec_ends_with_Throw:
  "exec n x (body @ [Throw e]) w = Some c \<Longrightarrow> \<exists>e' w'. c = Throws e' w'"
proof (induction body arbitrary: w)
  case Nil
  then show ?case by auto
next
  case (Cons s body)
  show ?case
  proof (cases s)
    case (ThrowIfRequested u)
    with Cons show ?thesis
      by (auto simp: throwIfRequested_def split: if_splits option.splits)
  qed (use Cons in \<open>auto split: if_splits option.splits completion.splits\<close>)
qed

lemma trigger_fresh:
  "plain m \<Longrightarrow> trigger n (length (heap w)) m (alloc w) =
     Some (Normal (upd_token (length (heap w)) (\<lambda>tk. tk\<lparr>observers := []\<rparr>)
       (upd_token (length (heap w)) (\<lambda>tk. tk\<lparr>reason := Some (new_Cancel m)\<rparr>) (alloc w))))"
  by (simp add: trigger.simps dispatch.simps heap_upd_token toString_call_plain)

section \<open>Decimal digits\<close>

lemma digit_value_digit: "d < 10 \<Longrightarrow> digit_value (''0123456789'' ! d) = d"
proof -
  assume "d < 10"
  then have "d \<in> {0, 1, 2, 3, 4, 5, 6, 7, 8, 9}" by auto
  then show ?thesis by (auto simp: digit_value_def)
qed

lemma decimal_value_snoc:
  "decimal_value (ds @ [c]) = 10 * decimal_value ds + digit_value c"
  by (simp add: decimal_value_def)

lemma decimal_value_digits: "decimal_value (digits n) = n"
proof (induction n rule: digits.induct)
  case (1 n)
  show ?case
  proof (cases "n < 10")
    case True
    then show ?thesis
      using digit_value_digit[of n] by (subst digits.simps) (simp add: decimal_value_def)
  next
    case False
    then have "decimal_value (digits (n div 10)) = n div 10" using 1 by simp
    with False show ?thesis
      using digit_value_digit[of "n mod 10"]
      by (subst digits.simps) (simp add: decimal_value_snoc)
  qed
qed

lemma digits_not_Nil: "digits n \<noteq> []"
  by (subst digits.simps) simp

lemma digit_in_digits: "d < 10 \<Longrightarrow> ''0123456789'' ! d \<in> set ''0123456789''"
  by (rule nth_mem) simp

lemma digits_all_digits: "list_all (\<lambda>c. c \<in> set ''0123456789'') (digits n)"
proof (induction n rule: digits.induct)
  case (1 n)
  show ?case
  proof (cases "n < 10")
    case True
    then show ?thesis
      using digit_in_digits[of n] by (subst digits.simps) simp
  next
    case False
    with 1 have "list_all (\<lambda>c. c \<in> set ''0123456789'') (digits (n div 10))" by simp
    with False show ?thesis
      using digit_in_digits[of "n mod 10"] by (subst digits.simps) simp
  qed
qed

lemma digit_zero: "d < 10 \<Longrightarrow> ''0123456789'' ! d = CHR ''0'' \<Longrightarrow> d = 0"
proof -
  assume "d < 10" and z: "''0123456789'' ! d = CHR ''0''"
  then have "d \<in> {0, 1, 2, 3, 4, 5, 6, 7, 8, 9}" by auto
  with z show ?thesis by auto
qed

lemma digits_leading: "hd (digits n) = CHR ''0'' \<Longrightarrow> n = 0"
proof (induction n rule: digits.induct)
  case (1 n)
  show ?case
  proof (cases "n < 10")
    case True
    with "1.prems" show ?thesis
      using digit_zero[of n] by (subst (asm) digits.simps) simp
  next
    case False
    with "1.prems" have "hd (digits (n div 10)) = CHR ''0''"
      by (subst (asm) digits.simps) (simp add: digits_not_Nil)
    with 1 False have "n div 10 = 0" by simp
    with False show ?thesis by simp
  qed
qed

lemma digits_zero: "digits 0 = ''0''"
  by (subst digits.simps) simp

lemma decimal_of_digits: "decimal_of n (digits n)"
  unfolding decimal_of_def
  using digits_not_Nil digits_all_digits decimal_value_digits digits_leading digits_zero
  by metis

section \<open>The bound on nesting\<close>

text \<open>
  A result obtained with some bound on the nesting of callbacks is the result with any
  larger bound: the bound decides only whether there is a result.
\<close>

lemma bind_SomeD:
  assumes "(case r of None \<Rightarrow> None | Some (Normal w') \<Rightarrow> k w'
            | Some (Throws e w') \<Rightarrow> Some (Throws e w')) = Some c"
  obtains (normal) w' where "r = Some (Normal w')" and "k w' = Some c"
        | (throws) e w' where "r = Some (Throws e w')" and "c = Throws e w'"
  using assms by (auto split: option.splits completion.splits)

lemma fuel_mono:
  shows exec_mono: "exec n x body w = Some c \<Longrightarrow> n \<le> n' \<Longrightarrow> exec n' x body w = Some c"
    and subscribe_mono: "subscribe n t ob w = Some c \<Longrightarrow> n \<le> n' \<Longrightarrow> subscribe n' t ob w = Some c"
    and trigger_mono: "trigger n t m w = Some c \<Longrightarrow> n \<le> n' \<Longrightarrow> trigger n' t m w = Some c"
    and toString_call_mono:
      "toString_call n m w = Some c \<Longrightarrow> n \<le> n' \<Longrightarrow> toString_call n' m w = Some c"
    and dispatch_mono: "dispatch n t w = Some c \<Longrightarrow> n \<le> n' \<Longrightarrow> dispatch n' t w = Some c"
    and dispatch_loop_mono:
      "dispatch_loop n t hs w = Some c \<Longrightarrow> n \<le> n' \<Longrightarrow> dispatch_loop n' t hs w = Some c"
proof (induction n x body w and n t ob w and n t m w and n m w and n t w and n t hs w
       arbitrary: c n' and c n' and c n' and c n' and c n' and c n'
       rule: exec_subscribe_trigger_toString_call_dispatch_dispatch_loop.induct)
  case (1 n x w)
  then show ?case by simp
next
  case (2 n x e body w)
  then show ?case by simp
next
  case (3 n x t ob body w)
  show ?case
  proof (cases "t < length (heap w)")
    case True
    with "3.prems"(1) have "(case subscribe n t ob w of None \<Rightarrow> None
         | Some (Normal w') \<Rightarrow> exec n x body w'
         | Some (Throws e w') \<Rightarrow> Some (Throws e w')) = Some c" by simp
    then show ?thesis
    proof (cases rule: bind_SomeD)
      case (normal w')
      with "3.IH"(1)[OF True normal(1) "3.prems"(2)]
           "3.IH"(2)[OF True normal(1) refl normal(2) "3.prems"(2)] True
      show ?thesis by simp
    next
      case (throws e w')
      with "3.IH"(1)[OF True throws(1) "3.prems"(2)] True show ?thesis by simp
    qed
  next
    case False
    with "3.prems"(1) show ?thesis by simp
  qed
next
  case (4 n x t ob body w)
  show ?case
  proof (cases "t < length (heap w)")
    case True
    with "4.prems"(1) have "exec n x body (Observable_subscribe t ob w) = Some c" by simp
    from "4.IH"[OF True this "4.prems"(2)] True show ?thesis by simp
  next
    case False
    with "4.prems"(1) show ?thesis by simp
  qed
next
  case (5 n x k body w)
  show ?case
  proof (cases "k < length (disposers w)")
    case True
    with "5.prems"(1) have "exec n x body (unsubscribe k w) = Some c" by simp
    from "5.IH"[OF True this "5.prems"(2)] True show ?thesis by simp
  next
    case False
    with "5.prems"(1) show ?thesis by simp
  qed
next
  case (6 n x t m body w)
  show ?case
  proof (cases "t < length (heap w)")
    case True
    with "6.prems"(1) have "(case trigger n t m w of None \<Rightarrow> None
         | Some (Normal w') \<Rightarrow> exec n x body w'
         | Some (Throws e w') \<Rightarrow> Some (Throws e w')) = Some c" by simp
    then show ?thesis
    proof (cases rule: bind_SomeD)
      case (normal w')
      with "6.IH"(1)[OF True normal(1) "6.prems"(2)]
           "6.IH"(2)[OF True normal(1) refl normal(2) "6.prems"(2)] True
      show ?thesis by simp
    next
      case (throws e w')
      with "6.IH"(1)[OF True throws(1) "6.prems"(2)] True show ?thesis by simp
    qed
  next
    case False
    with "6.prems"(1) show ?thesis by simp
  qed
next
  case (7 n x t body w)
  show ?case
  proof (cases "t < length (heap w)")
    case True
    with "7.prems"(1) have "(case trigger n t x w of None \<Rightarrow> None
         | Some (Normal w') \<Rightarrow> exec n x body w'
         | Some (Throws e w') \<Rightarrow> Some (Throws e w')) = Some c" by simp
    then show ?thesis
    proof (cases rule: bind_SomeD)
      case (normal w')
      with "7.IH"(1)[OF True normal(1) "7.prems"(2)]
           "7.IH"(2)[OF True normal(1) refl normal(2) "7.prems"(2)] True
      show ?thesis by simp
    next
      case (throws e w')
      with "7.IH"(1)[OF True throws(1) "7.prems"(2)] True show ?thesis by simp
    qed
  next
    case False
    with "7.prems"(1) show ?thesis by simp
  qed
next
  case (8 n x t body w)
  show ?case
  proof (cases "t < length (heap w)")
    case True
    show ?thesis
    proof (cases "throwIfRequested t w")
      case (Normal w1)
      with True "8.prems"(1) have "exec n x body w1 = Some c" by simp
      from "8.IH"[OF True Normal this "8.prems"(2)] True Normal show ?thesis by simp
    next
      case (Throws e w1)
      with True "8.prems"(1) show ?thesis by auto
    qed
  next
    case False
    with "8.prems"(1) show ?thesis by simp
  qed
next
  case (9 n t ob w)
  show ?case
  proof (cases "reason (heap (Observable_subscribe t ob w) ! t) = None")
    case True
    with "9.prems"(1) show ?thesis by (simp add: subscribe.simps)
  next
    case False
    with "9.prems"(1) have "dispatch n t (Observable_subscribe t ob w) = Some c"
      by (simp add: subscribe.simps)
    from "9.IH"[OF refl False this "9.prems"(2)] False show ?thesis
      by (simp add: subscribe.simps)
  qed
next
  case (10 n t m w)
  show ?case
  proof (cases "reason (heap w ! t) = None")
    case True
    with "10.prems"(1) have "(case toString_call n m w of None \<Rightarrow> None
         | Some (Normal w') \<Rightarrow>
             dispatch n t (upd_token t (\<lambda>tk. tk\<lparr>reason := Some (new_Cancel m)\<rparr>) w')
         | Some (Throws e w') \<Rightarrow> Some (Throws e w')) = Some c"
      by (simp add: trigger.simps)
    then show ?thesis
    proof (cases rule: bind_SomeD)
      case (normal w')
      with "10.IH"(1)[OF True normal(1) "10.prems"(2)]
           "10.IH"(2)[OF True normal(1) refl normal(2) "10.prems"(2)] True
      show ?thesis by (simp add: trigger.simps)
    next
      case (throws e w')
      with "10.IH"(1)[OF True throws(1) "10.prems"(2)] True show ?thesis
        by (simp add: trigger.simps)
    qed
  next
    case False
    with "10.prems"(1) show ?thesis by (auto simp: trigger.simps)
  qed
next
  case (11 n w)
  then show ?case by simp
next
  case (12 n w)
  then show ?case by simp
next
  case (13 n b w)
  then show ?case by simp
next
  case (14 n k w)
  then show ?case by simp
next
  case (15 n s w)
  then show ?case by simp
next
  case (16 n r w)
  then show ?case by simp
next
  case (17 body s w)
  then show ?case by simp
next
  case (18 n body s w)
  from "18.prems"(2) obtain k where n': "n' = Suc k" and k: "n \<le> k"
    by (cases n') auto
  from "18.prems"(1) have "exec n JUndefined body w = Some c" by simp
  from "18.IH"[OF this k] show ?case unfolding n' by simp
next
  case (19 n t w)
  from "19.prems"(1) obtain w' where
    l: "dispatch_loop n t (observers (heap w ! t)) w = Some (Normal w')"
    and c: "c = Normal (upd_token t (\<lambda>tk. tk\<lparr>observers := []\<rparr>) w')"
    by (rule dispatch_SomeD)
  from "19.IH"[OF l "19.prems"(2)] c show ?case
    by (simp add: dispatch.simps)
next
  case (20 n t w)
  then show ?case by simp
next
  case (21 t h hs w)
  then show ?case by simp
next
  case (22 n t h hs w)
  from "22.prems"(1) obtain c1 c2 where
    e1: "exec n (reason_val t w) (on_next (target h))
           (record_call (Next t (ident (target h)) (reason_val t w)) w) = Some c1"
    and e2: "exec n JUndefined (on_complete (target h))
           (record_call (Complete t (ident (target h))) (caught c1)) = Some c2"
    and e3: "dispatch_loop (Suc n) t hs (caught c2) = Some c"
    by (auto simp: dispatch_loop_step split: option.splits)
  from "22.prems"(2) obtain k where n': "n' = Suc k" and k: "n \<le> k"
    by (cases n') auto
  have "exec k (reason_val t w) (on_next (target h))
           (record_call (Next t (ident (target h)) (reason_val t w)) w) = Some c1"
    using "22.IH"(1)[OF e1 k] .
  moreover have "exec k JUndefined (on_complete (target h))
           (record_call (Complete t (ident (target h))) (caught c1)) = Some c2"
    using "22.IH"(2)[OF e1 try_catch_report e2 k] .
  moreover have "dispatch_loop (Suc k) t hs (caught c2) = Some c"
    using "22.IH"(3)[OF e1 try_catch_report e2 try_catch_report e3] "22.prems"(2) n' by simp
  ultimately show ?case
    unfolding n' by (simp add: dispatch_loop_step)
qed

lemma perform_mono: "perform n p w = Some c \<Longrightarrow> n \<le> n' \<Longrightarrow> perform n' p w = Some c"
  by (cases p) (auto simp: race_def source_def new_CancelToken_def intro: exec_mono)

lemma run_mono: "run n ps w = Some w' \<Longrightarrow> n \<le> n' \<Longrightarrow> run n' ps w = Some w'"
  by (induction ps arbitrary: w) (auto split: option.splits dest: perform_mono)

section \<open>Registrations are kept apart\<close>

text \<open>
  In every world that operations lead to from the empty world, the handle of a new
  registration is new to the set: registering appends it, whether or not the observer
  is registered already, and the order of the set is the order of registration.
\<close>

lemma fresh_handles_nth:
  "fresh_handles w \<longleftrightarrow>
     (\<forall>u < length (heap w). \<forall>h \<in> set (observers (heap w ! u)). rid h < length (disposers w))"
  unfolding fresh_handles_def list_all_iff
  by (metis in_set_conv_nth)

lemma fresh_handles_upd_observers:
  assumes "fresh_handles w"
    and "\<And>h. h \<in> set (f (observers (heap w ! t))) \<Longrightarrow> rid h < length (disposers w)"
  shows "fresh_handles (upd_token t (\<lambda>tk. tk\<lparr>observers := f (observers tk)\<rparr>) w)"
  using assms by (auto simp: fresh_handles_nth heap_upd_token)

lemma fresh_handles_unsubscribe: "fresh_handles w \<Longrightarrow> fresh_handles (unsubscribe k w)"
  unfolding unsubscribe_def
  by (cases "disposers w ! k < length (heap w)")
     (auto simp: fresh_handles_nth heap_upd_token Set_delete_def)

lemma fresh_handles_subscribe:
  "fresh_handles w \<Longrightarrow> fresh_handles (Observable_subscribe t ob w)"
  unfolding Observable_subscribe_def
  by (auto simp: fresh_handles_nth heap_upd_token Set_add_def less_Suc_eq
        split: if_splits)

lemma fresh_handles_set_reason:
  "fresh_handles w \<Longrightarrow> fresh_handles (upd_token t (\<lambda>tk. tk\<lparr>reason := Some r\<rparr>) w)"
  by (auto simp: fresh_handles_nth heap_upd_token)

lemma fresh_handles_clear:
  "fresh_handles w \<Longrightarrow> fresh_handles (upd_token t (\<lambda>tk. tk\<lparr>observers := []\<rparr>) w)"
  by (auto simp: fresh_handles_nth heap_upd_token)

lemma fresh_handles_record_call: "fresh_handles w \<Longrightarrow> fresh_handles (record_call e w)"
  by (simp add: fresh_handles_def record_call_def)

lemma fresh_handles_report:
  "fresh_handles w \<Longrightarrow> fresh_handles (w\<lparr>reported := reported w @ [e]\<rparr>)"
  by (simp add: fresh_handles_def)

lemma exec_fresh_handles:
  assumes "exec n x body w = Some c" and "fresh_handles w"
  shows "fresh_handles (world_of c)"
proof -
  have "fresh_handles w \<longrightarrow> fresh_handles (world_of c)"
    using assms(1)
    by (rule frame_rule(1)[where R = "\<lambda>w w'. fresh_handles w \<longrightarrow> fresh_handles w'", rotated -1])
       (simp_all add: fresh_handles_unsubscribe fresh_handles_subscribe
          fresh_handles_set_reason fresh_handles_clear fresh_handles_record_call
          fresh_handles_report)
  with assms(2) show ?thesis by simp
qed

lemma fresh_handles_alloc: "fresh_handles w \<Longrightarrow> fresh_handles (alloc w)"
  by (simp add: fresh_handles_def alloc_def)

lemma perform_fresh_handles:
  "perform n p w = Some c \<Longrightarrow> fresh_handles w \<Longrightarrow> fresh_handles (world_of c)"
  by (cases p)
     (auto simp: race_def source_def new_CancelToken_def
           intro: exec_fresh_handles fresh_handles_alloc)

lemma run_fresh_handles: "run n ps w = Some w' \<Longrightarrow> fresh_handles w \<Longrightarrow> fresh_handles w'"
  by (induction ps arbitrary: w) (auto split: option.splits dest: perform_fresh_handles)

lemma registration_appends:
  assumes "run n ps empty_world = Some w" and "t < length (heap w)"
  shows "observers (heap (Observable_subscribe t ob w) ! t) =
           observers (heap w ! t) @ [Handle (length (disposers w)) ob]"
proof -
  have "fresh_handles empty_world" by (simp add: fresh_handles_def empty_world_def)
  with assms(1) have "fresh_handles w" by (rule run_fresh_handles)
  with assms(2) have "\<forall>h \<in> set (observers (heap w ! t)). rid h < length (disposers w)"
    by (simp add: fresh_handles_nth)
  then have "Handle (length (disposers w)) ob \<notin> set (observers (heap w ! t))"
    by fastforce
  with assms(2) show ?thesis
    by (simp add: Observable_subscribe_def heap_upd_token Set_add_def)
qed

section \<open>The race combinator\<close>

text \<open>
  Claim C1 says that the token made by \<open>race\<close> fires with the message of the input that
  fires first. The observer \<open>race\<close> registers is the trigger itself, so what reaches
  \<open>new Cancel\<close> is the input's reason object, not its message, and \<open>String\<close> turns it
  into \<open>[object Object]\<close>. In the scenario of the specification (two source tokens,
  their race, then \<open>cancel("b-done")\<close> on the second and \<open>cancel("a-done")\<close> on the
  first) the reasons of the three tokens are these; the race token does fire once, and
  keeps its reason, but its message is not \<open>b-done\<close>.
\<close>

theorem race_reason_is_object_string:
  "map_option (\<lambda>w. map reason (heap w))
     (run 2 [Source, Source, Race [0, 1],
             Call (CallCancel 1 (JStr ''b-done'')),
             Call (CallCancel 0 (JStr ''a-done''))] empty_world) =
   Some [Some (Cancel ''a-done''), Some (Cancel ''b-done''), Some (Cancel ''[object Object]'')]"
  by code_simp

section \<open>Notifications under re-entrant subscription\<close>

text \<open>
  Claim C2 says that no observer receives \<open>next\<close> more than once, re-entrant
  subscriptions included. \<open>subscribe\<close> on a cancelled token adds the new observer to
  the set and runs \<open>_dispatch\<close> over the whole set, and the set is cleared only when a
  pass ends. So a subscription made from inside a callback notifies again every
  observer that is still in the set.

  Here the first token is cancelled and \<open>resubscriber\<close> is then subscribed to it, once:
  these are the \<open>next\<close> notifications it receives.
\<close>

theorem replay_notifies_twice:
  "map_option (\<lambda>w. filter (is_next 0 (Object 1)) (calls w))
     (run 3 [Source, Source, Call (CallCancel 0 (JStr ''stop'')),
             Call (Subscribe 0 resubscriber)] empty_world) =
   Some [Next 0 (Object 1) (JObj (Cancel ''stop'')),
         Next 0 (Object 1) (JObj (Cancel ''stop''))]"
  by code_simp

text \<open>
  Claim C5 says that an observer registered before cancellation receives exactly one
  \<open>next\<close> when the trigger first fires. Here \<open>resubscriber\<close> and \<open>bystander\<close> are
  subscribed to the pending first token, which is then cancelled: the pass started by
  the trigger is interleaved with the pass started by the re-entrant \<open>subscribe\<close>, and
  these are the \<open>next\<close> notifications \<open>resubscriber\<close> receives.
\<close>

theorem dispatch_notifies_twice:
  "map_option (\<lambda>w. filter (is_next 0 (Object 1)) (calls w))
     (run 3 [Source, Source, Call (Subscribe 0 resubscriber), Call (Subscribe 0 bystander),
             Call (CallCancel 0 (JStr ''stop''))] empty_world) =
   Some [Next 0 (Object 1) (JObj (Cancel ''stop'')),
         Next 0 (Object 1) (JObj (Cancel ''stop''))]"
  by code_simp

section \<open>Registering on the exposed channel\<close>

text \<open>
  Claim C3 says that a token with a reason has an empty observer set after every
  public operation, and that \<open>subscribe\<close> replays without adding the observer to the
  set. \<open>[Symbol.observable]()\<close> hands out the channel itself, and registering on it
  runs the subscriber function only: unlike \<open>subscribe\<close>, nothing looks at the reason.

  After \<open>source()\<close> and \<open>cancel("stop")\<close>, registering \<open>bystander\<close> on the channel
  leaves it in the set of the cancelled token, and it is not called. And \<open>subscribe\<close>
  on the cancelled token of \<open>cancelled_world\<close> is \<open>_dispatch\<close> from the state in which the
  new observer has been added to the set.
\<close>

theorem channel_registration_stays:
  "map_option (\<lambda>w. (map reason (heap w), map (\<lambda>tk. map target (observers tk)) (heap w), calls w))
     (run 1 [Source, Call (CallCancel 0 (JStr ''stop'')),
             Call (SubscribeObservable 0 bystander)] empty_world) =
   Some ([Some (Cancel ''stop'')], [[bystander]], []) \<and>
   observers (heap (Observable_subscribe 1 bystander cancelled_world) ! 1) =
     [Handle 0 bystander] \<and>
   subscribe 1 1 bystander cancelled_world =
     dispatch 1 1 (Observable_subscribe 1 bystander cancelled_world)"
  by code_simp

section \<open>A message that calls the trigger\<close>

text \<open>
  Claim C4 says that only the first trigger call's message becomes the reason, that
  every later call is a no-op, and that the reason never changes once set. The trigger
  tests \<open>_reason\<close>, then evaluates \<open>new Cancel(msg)\<close>, which converts the message to a
  string, and then assigns. A \<open>toString\<close> method of the message runs in between.

  After \<open>source()\<close> and subscribing \<open>bystander\<close>, the trigger is called with
  \<open>reentrant_message\<close>, whose \<open>toString\<close> method calls the trigger with \<open>"inner"\<close>:
  \<open>bystander\<close> is notified with the reason \<open>inner\<close>, and the reason of the token is
  \<open>outer\<close> when the call returns.
\<close>

theorem reentrant_trigger_overwrites_reason:
  "map_option (\<lambda>w. (calls w, map reason (heap w)))
     (run 2 [Source, Call (Subscribe 0 bystander),
             Call (CallCancel 0 reentrant_message)] empty_world) =
   Some ([Next 0 (Object 2) (JObj (Cancel ''inner'')), Complete 0 (Object 2)],
         [Some (Cancel ''outer'')])"
  by code_simp

section \<open>Subscribing after cancellation\<close>

text \<open>
  Claim C6. On a token that has a reason \<open>r\<close>, when \<open>subscribe\<close> returns it returns
  normally and the calls made during it include \<open>next\<close> with \<open>r\<close> to the new observer
  and, later, \<open>complete\<close> to it. If the observer's callbacks do not call back into
  \<open>subscribe\<close> or a trigger (they may throw) and the token's set is empty, the call does
  return and these two are the only calls it makes.
\<close>

theorem subscribe_after_cancel:
  assumes "t < length (heap w)" and "reason (heap w ! t) = Some r"
  shows "(subscribe n t ob w = Some c \<longrightarrow>
           (\<exists>w' pre xs ys. c = Normal w' \<and>
              calls w' = calls w @ pre @ Next t (ident ob) (JObj r) # xs @
                           Complete t (ident ob) # ys)) \<and>
         (observers (heap w ! t) = [] \<and> inert_observer ob \<longrightarrow>
           (\<exists>w'. subscribe (Suc n) t ob w = Some (Normal w') \<and>
              calls w' = calls w @ [Next t (ident ob) (JObj r), Complete t (ident ob)]))"
proof (intro conjI impI)
  assume "subscribe n t ob w = Some c"
  from subscribe_delivers[OF assms this]
  show "\<exists>w' pre xs ys. c = Normal w' \<and>
          calls w' = calls w @ pre @ Next t (ident ob) (JObj r) # xs @ Complete t (ident ob) # ys"
    by blast
next
  assume "observers (heap w ! t) = [] \<and> inert_observer ob"
  with subscribe_inert[OF assms, of ob n]
  show "\<exists>w'. subscribe (Suc n) t ob w = Some (Normal w') \<and>
          calls w' = calls w @ [Next t (ident ob) (JObj r), Complete t (ident ob)]"
    by blast
qed

theorem subscribe_after_cancel_witness:
  "run 1 [Source, Source, Call (CallCancel 1 (JStr ''stop''))] empty_world =
     Some cancelled_world \<and>
   1 < length (heap cancelled_world) \<and>
   reason (heap cancelled_world ! 1) = Some (Cancel ''stop'') \<and>
   observers (heap cancelled_world ! 1) = [] \<and> inert_observer thrower \<and>
   (\<exists>w'. subscribe (Suc 0) 1 thrower cancelled_world = Some (Normal w') \<and>
      calls w' = calls cancelled_world @
        [Next 1 (ident thrower) (JObj (Cancel ''stop'')), Complete 1 (ident thrower)]) \<and>
   subscribe 2 1 resubscriber cancelled_world =
     Some (Normal (cancelled_world\<lparr>
       disposers := [1],
       reported := [JObj (Cancel ''stop'')],
       calls := [Next 1 (Object 1) (JObj (Cancel ''stop'')), Complete 1 (Object 1)]\<rparr>)) \<and>
   (\<exists>w' pre xs ys.
      Normal (cancelled_world\<lparr>
       disposers := [1],
       reported := [JObj (Cancel ''stop'')],
       calls := [Next 1 (Object 1) (JObj (Cancel ''stop'')), Complete 1 (Object 1)]\<rparr>) =
        Normal w' \<and>
      calls w' = calls cancelled_world @ pre @
        Next 1 (ident resubscriber) (JObj (Cancel ''stop'')) # xs @
        Complete 1 (ident resubscriber) # ys)"
  (is "?u \<and> ?l \<and> ?p \<and> ?o \<and> ?i \<and> ?c \<and> ?s \<and> ?c'")
proof -
  have l: ?l and p: ?p and o: ?o and i: ?i
    by (simp_all add: cancelled_world_def inert_observer_def thrower_def)
  have s: ?s and u: ?u
    by code_simp+
  have c: ?c
    using subscribe_after_cancel[OF l p, THEN conjunct2] o i by blast
  have c': ?c'
    using subscribe_after_cancel[OF l p, THEN conjunct1] s by blast
  show ?thesis using u l p o i c s c' by blast
qed

section \<open>Observers that throw\<close>

text \<open>
  Claim C7.
  \<^item> \<open>subscribe\<close> and \<open>_dispatch\<close> never complete by throwing, whatever the callbacks do.
    When the trigger completes by throwing, the exception is that of the conversion of
    its message to a string, which runs before the pass; no exception of an observer
    leaves a pass.
  \<^item> The passes are the calls of \<open>_dispatch\<close> that the trigger makes on a pending token
    and \<open>subscribe\<close> makes on a cancelled one.
  \<^item> For every pass and every observer \<open>h\<close> of its snapshot (\<open>pre\<close> are the observers
    before it, \<open>post\<close> those after it): the pass reaches \<open>h\<close>, calls its \<open>next\<close> callback
    and then its \<open>complete\<close> callback, and goes on with \<open>post\<close> to its end; whatever way
    one of the two callbacks throws, the exception is among the errors reported during
    the pass.
  \<^item> In a pass every observer of the snapshot is called with \<open>next\<close> and then
    \<open>complete\<close>, in the order of the snapshot; the calls of the pass may be interleaved
    with those the callbacks cause.
  \<^item> If no callback calls back into \<open>subscribe\<close> or a trigger (callbacks may throw), the
    trigger returns and the calls made are exactly one \<open>next\<close> and one \<open>complete\<close> for
    each observer, in order.
\<close>

theorem observer_errors_isolated:
  "(subscribe n t ob w = Some c \<longrightarrow> (\<exists>w'. c = Normal w')) \<and>
   (dispatch n t w = Some c \<longrightarrow> (\<exists>w'. c = Normal w')) \<and>
   (trigger n t m w = Some (Throws e w') \<longrightarrow> toString_call n m w = Some (Throws e w')) \<and>
   (reason (heap w ! t) = None \<and> trigger n t m w = Some (Normal w') \<longrightarrow>
      (\<exists>w1. toString_call n m w = Some (Normal w1) \<and>
         dispatch n t (upd_token t (\<lambda>tk. tk\<lparr>reason := Some (new_Cancel m)\<rparr>) w1) =
           Some (Normal w'))) \<and>
   (reason (heap w ! t) \<noteq> None \<and> t < length (heap w) \<and> subscribe n t ob w = Some c \<longrightarrow>
      dispatch n t (Observable_subscribe t ob w) = Some c) \<and>
   (dispatch n t w = Some c \<and> observers (heap w ! t) = pre @ h # post \<longrightarrow>
      (\<exists>k w1 c1 c2 w2. n = Suc k \<and>
         dispatch_loop n t pre w = Some (Normal w1) \<and>
         exec k (reason_val t w1) (on_next (target h))
           (record_call (Next t (ident (target h)) (reason_val t w1)) w1) = Some c1 \<and>
         exec k JUndefined (on_complete (target h))
           (record_call (Complete t (ident (target h))) (caught c1)) = Some c2 \<and>
         dispatch_loop n t post (caught c2) = Some (Normal w2) \<and>
         c = Normal (upd_token t (\<lambda>tk. tk\<lparr>observers := []\<rparr>) w2) \<and>
         (\<forall>x. thrown c1 = Some x \<or> thrown c2 = Some x \<longrightarrow>
            x \<in> set (new_reported w (world_of c))))) \<and>
   (dispatch n t w = Some c \<and> reason (heap w ! t) = Some r \<longrightarrow>
      subseq (deliveries t (JObj r) (map target (observers (heap w ! t))))
        (new_calls w (world_of c))) \<and>
   (t < length (heap w) \<and> reason (heap w ! t) = None \<and> plain m \<and>
    list_all (\<lambda>h. inert_observer (target h)) (observers (heap w ! t)) \<longrightarrow>
      (\<exists>w'. trigger (Suc n) t m w = Some (Normal w') \<and>
         calls w' = calls w @
           deliveries t (JObj (new_Cancel m)) (map target (observers (heap w ! t)))))"
proof (intro conjI impI)
  assume "subscribe n t ob w = Some c"
  then show "\<exists>w'. c = Normal w'" by (rule subscribe_Normal)
next
  assume "dispatch n t w = Some c"
  then show "\<exists>w'. c = Normal w'" by (rule dispatch_Normal)
next
  assume "trigger n t m w = Some (Throws e w')"
  then show "toString_call n m w = Some (Throws e w')" by (rule trigger_Throws)
next
  assume "reason (heap w ! t) = None \<and> trigger n t m w = Some (Normal w')"
  then show "\<exists>w1. toString_call n m w = Some (Normal w1) \<and>
         dispatch n t (upd_token t (\<lambda>tk. tk\<lparr>reason := Some (new_Cancel m)\<rparr>) w1) =
           Some (Normal w')"
    by (auto elim: trigger_SomeD)
next
  assume "reason (heap w ! t) \<noteq> None \<and> t < length (heap w) \<and> subscribe n t ob w = Some c"
  then show "dispatch n t (Observable_subscribe t ob w) = Some c"
    using subscribe_cancelled(1)[of t w _ n ob c] by auto
next
  assume a: "dispatch n t w = Some c \<and> observers (heap w ! t) = pre @ h # post"
  then obtain w2 where
    l: "dispatch_loop n t (pre @ h # post) w = Some (Normal w2)"
    and c: "c = Normal (upd_token t (\<lambda>tk. tk\<lparr>observers := []\<rparr>) w2)"
    by (auto elim: dispatch_SomeD)
  from dispatch_loop_split[OF l] obtain k w1 c1 c2 where k: "n = Suc k"
    and p: "dispatch_loop n t pre w = Some (Normal w1)"
    and e1: "exec k (reason_val t w1) (on_next (target h))
           (record_call (Next t (ident (target h)) (reason_val t w1)) w1) = Some c1"
    and e2: "exec k JUndefined (on_complete (target h))
           (record_call (Complete t (ident (target h))) (caught c1)) = Some c2"
    and e3: "dispatch_loop n t post (caught c2) = Some (Normal w2)"
    by blast
  have "x \<in> set (new_reported w (world_of c))"
    if "thrown c1 = Some x \<or> thrown c2 = Some x" for x
    using dispatch_loop_reports[OF p e1 e2 e3 that] c
    by (simp add: new_reported_def)
  with k p e1 e2 e3 c
  show "\<exists>k w1 c1 c2 w2. n = Suc k \<and>
         dispatch_loop n t pre w = Some (Normal w1) \<and>
         exec k (reason_val t w1) (on_next (target h))
           (record_call (Next t (ident (target h)) (reason_val t w1)) w1) = Some c1 \<and>
         exec k JUndefined (on_complete (target h))
           (record_call (Complete t (ident (target h))) (caught c1)) = Some c2 \<and>
         dispatch_loop n t post (caught c2) = Some (Normal w2) \<and>
         c = Normal (upd_token t (\<lambda>tk. tk\<lparr>observers := []\<rparr>) w2) \<and>
         (\<forall>x. thrown c1 = Some x \<or> thrown c2 = Some x \<longrightarrow>
            x \<in> set (new_reported w (world_of c)))"
    by blast
next
  assume a: "dispatch n t w = Some c \<and> reason (heap w ! t) = Some r"
  then obtain w2 where
    l: "dispatch_loop n t (observers (heap w ! t)) w = Some (Normal w2)"
    and c: "c = Normal (upd_token t (\<lambda>tk. tk\<lparr>observers := []\<rparr>) w2)"
    by (auto elim: dispatch_SomeD)
  from dispatch_loop_subseq[OF l] a obtain new where
    "calls w2 = calls w @ new"
    "subseq (deliveries t (JObj r) (map target (observers (heap w ! t)))) new"
    by auto
  with c show "subseq (deliveries t (JObj r) (map target (observers (heap w ! t))))
        (new_calls w (world_of c))"
    by (simp add: new_calls_def)
next
  assume "t < length (heap w) \<and> reason (heap w ! t) = None \<and> plain m \<and>
    list_all (\<lambda>h. inert_observer (target h)) (observers (heap w ! t))"
  then show "\<exists>w'. trigger (Suc n) t m w = Some (Normal w') \<and>
         calls w' = calls w @
           deliveries t (JObj (new_Cancel m)) (map target (observers (heap w ! t)))"
    using trigger_inert[of t w m n] by blast
qed

theorem observer_errors_isolated_witness:
  "run 1 [Source, Source, Call (Subscribe 0 thrower), Call (Subscribe 0 poller),
          Call (Subscribe 0 bystander)] empty_world = Some watched_world \<and>
   reason (heap watched_world ! 0) = None \<and>
   trigger 1 0 (JStr ''halt'') watched_world = Some (Normal fired_world) \<and>
   (\<exists>w1. toString_call 1 (JStr ''halt'') watched_world = Some (Normal w1) \<and>
      dispatch 1 0 (upd_token 0 (\<lambda>tk. tk\<lparr>reason := Some (new_Cancel (JStr ''halt''))\<rparr>) w1) =
        Some (Normal fired_world)) \<and>
   upd_token 0 (\<lambda>tk. tk\<lparr>reason := Some (new_Cancel (JStr ''halt''))\<rparr>) watched_world =
     firing_world \<and>
   dispatch 1 0 firing_world = Some (Normal fired_world) \<and>
   observers (heap firing_world ! 0) = [Handle 0 thrower] @ Handle 1 poller # [Handle 2 bystander] \<and>
   (case dispatch_loop 1 0 [Handle 0 thrower] firing_world of
      Some (Normal w1) \<Rightarrow>
        map_option thrown
          (exec 0 (reason_val 0 w1) (on_next poller)
             (record_call (Next 0 (ident poller) (reason_val 0 w1)) w1))
    | _ \<Rightarrow> None) = Some (Some (JObj (Cancel ''halt''))) \<and>
   (\<exists>k w1 c1 c2 w2. 1 = Suc k \<and>
      dispatch_loop 1 0 [Handle 0 thrower] firing_world = Some (Normal w1) \<and>
      exec k (reason_val 0 w1) (on_next (target (Handle 1 poller)))
        (record_call (Next 0 (ident (target (Handle 1 poller))) (reason_val 0 w1)) w1) = Some c1 \<and>
      exec k JUndefined (on_complete (target (Handle 1 poller)))
        (record_call (Complete 0 (ident (target (Handle 1 poller)))) (caught c1)) = Some c2 \<and>
      dispatch_loop 1 0 [Handle 2 bystander] (caught c2) = Some (Normal w2) \<and>
      Normal fired_world = Normal (upd_token 0 (\<lambda>tk. tk\<lparr>observers := []\<rparr>) w2) \<and>
      (\<forall>x. thrown c1 = Some x \<or> thrown c2 = Some x \<longrightarrow>
         x \<in> set (new_reported firing_world (world_of (Normal fired_world))))) \<and>
   new_reported firing_world fired_world =
     [JStr ''next failed'', JStr ''complete failed'', JObj (Cancel ''halt''), JStr ''TypeError''] \<and>
   reason (heap firing_world ! 0) = Some (Cancel ''halt'') \<and>
   subseq (deliveries 0 (JObj (Cancel ''halt'')) (map target (observers (heap firing_world ! 0))))
     (new_calls firing_world (world_of (Normal fired_world))) \<and>
   0 < length (heap watched_world) \<and> plain (JStr ''halt'') \<and>
   list_all (\<lambda>h. inert_observer (target h)) (observers (heap watched_world ! 0)) \<and>
   (\<exists>w'. trigger (Suc 0) 0 (JStr ''halt'') watched_world = Some (Normal w') \<and>
      calls w' = calls watched_world @
        deliveries 0 (JObj (new_Cancel (JStr ''halt'')))
          (map target (observers (heap watched_world ! 0)))) \<and>
   trigger 1 0 failing_message watched_world =
     Some (Throws (JStr ''no string'') watched_world) \<and>
   toString_call 1 failing_message watched_world =
     Some (Throws (JStr ''no string'') watched_world)"
  (is "?u \<and> ?p \<and> ?tr \<and> ?st \<and> ?fw \<and> ?d \<and> ?o \<and> ?th \<and> ?pass \<and> ?nr \<and> ?r \<and> ?sub \<and> ?l \<and> ?pl \<and>
       ?in \<and> ?tot \<and> ?f \<and> ?fc")
proof -
  have p: ?p and o: ?o and r: ?r and l: ?l and pl: ?pl and "in": ?in
    by (simp_all add: watched_world_def firing_world_def inert_observer_def
          thrower_def poller_def bystander_def)
  have u: ?u and tr: ?tr and d: ?d and nr: ?nr and f: ?f and fw: ?fw and th: ?th
    by code_simp+
  have st: ?st
    using observer_errors_isolated[where n = 1 and t = 0 and m = "JStr ''halt''"
        and w = watched_world and w' = fired_world,
        THEN conjunct2, THEN conjunct2, THEN conjunct2, THEN conjunct1] p tr
    by blast
  have pass: ?pass
    using observer_errors_isolated[where n = 1 and t = 0 and w = firing_world
        and c = "Normal fired_world" and pre = "[Handle 0 thrower]" and h = "Handle 1 poller"
        and post = "[Handle 2 bystander]",
        THEN conjunct2, THEN conjunct2, THEN conjunct2, THEN conjunct2, THEN conjunct2,
        THEN conjunct1] d o
    by blast
  have sub: ?sub
    using observer_errors_isolated[where n = 1 and t = 0 and w = firing_world
        and c = "Normal fired_world" and r = "Cancel ''halt''",
        THEN conjunct2, THEN conjunct2, THEN conjunct2, THEN conjunct2, THEN conjunct2,
        THEN conjunct2, THEN conjunct1] d r
    by blast
  have tot: ?tot
    using observer_errors_isolated[where n = 0 and t = 0 and w = watched_world
        and m = "JStr ''halt''",
        THEN conjunct2, THEN conjunct2, THEN conjunct2, THEN conjunct2, THEN conjunct2,
        THEN conjunct2, THEN conjunct2] l p pl "in"
    by blast
  have fc: ?fc
    using observer_errors_isolated[where n = 1 and t = 0 and w = watched_world
        and m = failing_message and e = "JStr ''no string''" and w' = watched_world,
        THEN conjunct2, THEN conjunct2, THEN conjunct1] f
    by blast
  show ?thesis
    using u p tr st fw d o th pass nr r sub l pl "in" tot f fc by blast
qed

section \<open>Polling and the stored message\<close>

text \<open>
  Claim C8: \<open>throwIfRequested()\<close> returns normally, leaving the state as it was, while
  the reason is undefined, and throws exactly the stored reason once it is set.
\<close>

theorem throwIfRequested_spec:
  "(reason (heap w ! t) = None \<longrightarrow> throwIfRequested t w = Normal w) \<and>
   (\<forall>r. reason (heap w ! t) = Some r \<longrightarrow> throwIfRequested t w = Throws (JObj r) w)"
  by (simp add: throwIfRequested_def)

theorem throwIfRequested_spec_witness:
  "reason (heap cancelled_world ! 0) = None \<and>
   throwIfRequested 0 cancelled_world = Normal cancelled_world \<and>
   reason (heap cancelled_world ! 1) = Some (Cancel ''stop'') \<and>
   throwIfRequested 1 cancelled_world = Throws (JObj (Cancel ''stop'')) cancelled_world"
  using throwIfRequested_spec[of cancelled_world 0] throwIfRequested_spec[of cancelled_world 1]
  by (simp add: cancelled_world_def)

text \<open>
  Claim C9. When the trigger of a pending token is called with \<open>m\<close> and returns, the
  message of the stored reason is \<open>String(m)\<close>, which is:
  \<^item> \<open>undefined\<close>, \<open>null\<close>, \<open>true\<close> and \<open>false\<close> for these values, the string itself
    for a string, and \<open>[object Object]\<close> for a \<open>Cancel\<close> instance;
  \<^item> for an integer, its decimal numeral, with a minus sign in front if it is negative;
  \<^item> for an object with a \<open>toString\<close> method, the string the method returns.

  The trigger throws only if the conversion does, and then the call does nothing else:
  its completion is that of the conversion. For a message without a \<open>toString\<close>
  method and observers that do not call back, the trigger does return. Finally,
  \<open>cancel()\<close> without an argument, on the token \<open>source()\<close> has just made, returns and
  stores the message \<open>undefined\<close>.
\<close>

theorem reason_message_is_String:
  "(t < length (heap w) \<and> reason (heap w ! t) = None \<and> trigger n t m w = Some (Normal w') \<longrightarrow>
      reason (heap w' ! t) = Some (Cancel (String_js m))) \<and>
   String_js JUndefined = ''undefined'' \<and> String_js JNull = ''null'' \<and>
   String_js (JBool True) = ''true'' \<and> String_js (JBool False) = ''false'' \<and>
   String_js (JStr s) = s \<and> String_js (JObj r) = ''[object Object]'' \<and>
   String_js (JCustom body s) = s \<and>
   String_js (JNum 0) = ''0'' \<and> String_js (JNum 42) = ''42'' \<and> String_js (JNum (- 7)) = ''-7'' \<and>
   (0 \<le> k \<longrightarrow> decimal_of (nat k) (String_js (JNum k))) \<and>
   (k < 0 \<longrightarrow> (\<exists>ds. String_js (JNum k) = CHR ''-'' # ds \<and> decimal_of (nat (- k)) ds)) \<and>
   (reason (heap w ! t) = None \<and> toString_call n m w = Some (Throws e w1) \<longrightarrow>
      trigger n t m w = Some (Throws e w1)) \<and>
   (trigger n t m w = Some (Throws e w1) \<longrightarrow> toString_call n m w = Some (Throws e w1)) \<and>
   (t < length (heap w) \<and> reason (heap w ! t) = None \<and> plain m \<and>
    list_all (\<lambda>h. inert_observer (target h)) (observers (heap w ! t)) \<longrightarrow>
      (\<exists>w2. trigger (Suc n) t m w = Some (Normal w2) \<and>
         reason (heap w2 ! t) = Some (Cancel (String_js m)))) \<and>
   (\<exists>w0 w2. source n w = Some (Normal w0) \<and>
      trigger n (length (heap w)) JUndefined w0 = Some (Normal w2) \<and>
      reason (heap w2 ! length (heap w)) = Some (Cancel ''undefined''))"
proof (intro conjI impI)
  assume "t < length (heap w) \<and> reason (heap w ! t) = None \<and> trigger n t m w = Some (Normal w')"
  then show "reason (heap w' ! t) = Some (Cancel (String_js m))"
    using trigger_pending_reason[of t w n m w'] by (simp add: new_Cancel_def)
next
  show "String_js (JNum 0) = ''0''" "String_js (JNum 42) = ''42''"
       "String_js (JNum (- 7)) = ''-7''"
    by code_simp+
next
  assume "0 \<le> k"
  then show "decimal_of (nat k) (String_js (JNum k))"
    by (simp add: Number_toString_def decimal_of_digits)
next
  assume "k < 0"
  then show "\<exists>ds. String_js (JNum k) = CHR ''-'' # ds \<and> decimal_of (nat (- k)) ds"
    by (simp add: Number_toString_def decimal_of_digits)
next
  assume "reason (heap w ! t) = None \<and> toString_call n m w = Some (Throws e w1)"
  then show "trigger n t m w = Some (Throws e w1)"
    by (simp add: trigger.simps)
next
  assume "trigger n t m w = Some (Throws e w1)"
  then show "toString_call n m w = Some (Throws e w1)" by (rule trigger_Throws)
next
  assume "t < length (heap w) \<and> reason (heap w ! t) = None \<and> plain m \<and>
    list_all (\<lambda>h. inert_observer (target h)) (observers (heap w ! t))"
  then show "\<exists>w2. trigger (Suc n) t m w = Some (Normal w2) \<and>
         reason (heap w2 ! t) = Some (Cancel (String_js m))"
    using trigger_inert[of t w m n] by (auto simp: new_Cancel_def)
next
  show "\<exists>w0 w2. source n w = Some (Normal w0) \<and>
      trigger n (length (heap w)) JUndefined w0 = Some (Normal w2) \<and>
      reason (heap w2 ! length (heap w)) = Some (Cancel ''undefined'')"
    by (simp add: source_eq trigger_fresh heap_upd_token new_Cancel_def)
qed simp_all

theorem reason_message_is_String_witness:
  "0 < length (heap cancelled_world) \<and> reason (heap cancelled_world ! 0) = None \<and>
   trigger 1 0 (JNum 42) cancelled_world =
     Some (Normal (cancelled_world\<lparr>heap := [\<lparr>reason = Some (Cancel ''42''), observers = []\<rparr>,
                              \<lparr>reason = Some (Cancel ''stop''), observers = []\<rparr>]\<rparr>)) \<and>
   reason (heap (cancelled_world\<lparr>heap := [\<lparr>reason = Some (Cancel ''42''), observers = []\<rparr>,
                              \<lparr>reason = Some (Cancel ''stop''), observers = []\<rparr>]\<rparr>) ! 0) =
     Some (Cancel (String_js (JNum 42))) \<and>
   trigger 2 0 reentrant_message cancelled_world =
     Some (Normal (cancelled_world\<lparr>heap := [\<lparr>reason = Some (Cancel ''outer''), observers = []\<rparr>,
                              \<lparr>reason = Some (Cancel ''stop''), observers = []\<rparr>]\<rparr>)) \<and>
   reason (heap (cancelled_world\<lparr>heap := [\<lparr>reason = Some (Cancel ''outer''), observers = []\<rparr>,
                              \<lparr>reason = Some (Cancel ''stop''), observers = []\<rparr>]\<rparr>) ! 0) =
     Some (Cancel (String_js reentrant_message)) \<and>
   (0 :: int) \<le> 0 \<and> decimal_of (nat 0) (String_js (JNum 0)) \<and>
   (0 :: int) \<le> 42 \<and> decimal_of (nat 42) (String_js (JNum 42)) \<and>
   (- 7 :: int) < 0 \<and>
   (\<exists>ds. String_js (JNum (- 7)) = CHR ''-'' # ds \<and> decimal_of (nat (- (- 7))) ds) \<and>
   toString_call 1 failing_message cancelled_world =
     Some (Throws (JStr ''no string'') cancelled_world) \<and>
   trigger 1 0 failing_message cancelled_world =
     Some (Throws (JStr ''no string'') cancelled_world) \<and>
   0 < length (heap watched_world) \<and> reason (heap watched_world ! 0) = None \<and>
   plain (JBool True) \<and>
   list_all (\<lambda>h. inert_observer (target h)) (observers (heap watched_world ! 0)) \<and>
   (\<exists>w2. trigger (Suc 0) 0 (JBool True) watched_world = Some (Normal w2) \<and>
      reason (heap w2 ! 0) = Some (Cancel (String_js (JBool True))))"
  (is "?l \<and> ?p \<and> ?t1 \<and> ?r1 \<and> ?t2 \<and> ?r2 \<and> ?k0 \<and> ?d0 \<and> ?k1 \<and> ?d1 \<and> ?k2 \<and> ?d2 \<and>
       ?fc \<and> ?f \<and> ?l' \<and> ?p' \<and> ?pl \<and> ?in \<and> ?tot")
proof -
  have l: ?l and p: ?p and l': ?l' and p': ?p' and "in": ?in
    by (simp_all add: cancelled_world_def watched_world_def inert_observer_def
          thrower_def poller_def bystander_def)
  have k0: ?k0 and k1: ?k1 and k2: ?k2 and pl: ?pl by simp_all
  have t1: ?t1 and t2: ?t2 and fc: ?fc
    by code_simp+
  have r1: ?r1
    using reason_message_is_String[where t = 0 and w = cancelled_world and n = 1
        and m = "JNum 42", THEN conjunct1] l p t1 by blast
  have r2: ?r2
    using reason_message_is_String[where t = 0 and w = cancelled_world and n = 2
        and m = reentrant_message, THEN conjunct1] l p t2 by blast
  have d0: ?d0
    using reason_message_is_String[where k = 0, THEN conjunct2, THEN conjunct2,
        THEN conjunct2, THEN conjunct2, THEN conjunct2, THEN conjunct2, THEN conjunct2,
        THEN conjunct2, THEN conjunct2, THEN conjunct2, THEN conjunct2, THEN conjunct1] k0
    by blast
  have d1: ?d1
    using reason_message_is_String[where k = 42, THEN conjunct2, THEN conjunct2,
        THEN conjunct2, THEN conjunct2, THEN conjunct2, THEN conjunct2, THEN conjunct2,
        THEN conjunct2, THEN conjunct2, THEN conjunct2, THEN conjunct2, THEN conjunct1] k1
    by blast
  have d2: ?d2
    using reason_message_is_String[where k = "- 7", THEN conjunct2, THEN conjunct2,
        THEN conjunct2, THEN conjunct2, THEN conjunct2, THEN conjunct2, THEN conjunct2,
        THEN conjunct2, THEN conjunct2, THEN conjunct2, THEN conjunct2, THEN conjunct2,
        THEN conjunct1] k2
    by blast
  have f: ?f
    using reason_message_is_String[where t = 0 and w = cancelled_world and n = 1
        and m = failing_message and e = "JStr ''no string''" and ?w1.0 = cancelled_world,
        THEN conjunct2, THEN conjunct2,
        THEN conjunct2, THEN conjunct2, THEN conjunct2, THEN conjunct2, THEN conjunct2,
        THEN conjunct2, THEN conjunct2, THEN conjunct2, THEN conjunct2, THEN conjunct2,
        THEN conjunct2, THEN conjunct1] p fc
    by blast
  have tot: ?tot
    using reason_message_is_String[where t = 0 and w = watched_world and n = 0
        and m = "JBool True",
        THEN conjunct2, THEN conjunct2,
        THEN conjunct2, THEN conjunct2, THEN conjunct2, THEN conjunct2, THEN conjunct2,
        THEN conjunct2, THEN conjunct2, THEN conjunct2, THEN conjunct2, THEN conjunct2,
        THEN conjunct2, THEN conjunct2, THEN conjunct2, THEN conjunct1]
      l' p' pl "in"
    by blast
  show ?thesis
    using l p t1 r1 t2 r2 k0 d0 k1 d1 k2 d2 fc f l' p' pl "in" tot by blast
qed

section \<open>A setup function that throws\<close>

text \<open>
  Claim C10. The constructor calls \<open>fn\<close> without a handler:
  \<^item> when the body of \<open>fn\<close> completes by throwing \<open>e\<close>, so does the constructor;
  \<^item> a body that throws at once leaves the new token allocated and pending;
  \<^item> a body that calls the trigger with \<open>m\<close> first and throws at its end makes the
    constructor throw, and in the state it leaves the new token has the reason made from
    \<open>m\<close>, unless it was that trigger call that threw, converting \<open>m\<close> to a string; a
    message without a \<open>toString\<close> method leaves the first case only;
  \<^item> for the body that does nothing in between, and such a message, the constructor
    does return, by throwing \<open>e\<close>.
\<close>

theorem constructor_propagates:
  "(exec n JUndefined (fn (length (heap w))) (alloc w) = Some (Throws e w') \<longrightarrow>
      new_CancelToken n fn w = Some (Throws e w')) \<and>
   new_CancelToken n (\<lambda>cancel. Throw e # body cancel) w = Some (Throws e (alloc w)) \<and>
   (new_CancelToken n (\<lambda>cancel. CallCancel cancel m # body cancel @ [Throw e]) w = Some c \<longrightarrow>
      (\<exists>e' w1. c = Throws e' w1 \<and>
         (reason (heap w1 ! length (heap w)) = Some (new_Cancel m) \<or>
          toString_call n m (alloc w) = Some (Throws e' w1)))) \<and>
   (plain m \<and>
    new_CancelToken n (\<lambda>cancel. CallCancel cancel m # body cancel @ [Throw e]) w = Some c \<longrightarrow>
      (\<exists>e' w1. c = Throws e' w1 \<and>
         reason (heap w1 ! length (heap w)) = Some (new_Cancel m))) \<and>
   (plain m \<longrightarrow>
      (\<exists>w1. new_CancelToken n (\<lambda>cancel. [CallCancel cancel m, Throw e]) w = Some (Throws e w1) \<and>
         reason (heap w1 ! length (heap w)) = Some (new_Cancel m)))"
proof -
  let ?t = "length (heap w)"
  have general: "\<exists>e' w1. c = Throws e' w1 \<and>
         (reason (heap w1 ! ?t) = Some (new_Cancel m) \<or>
          toString_call n m (alloc w) = Some (Throws e' w1))"
    if a: "new_CancelToken n (\<lambda>cancel. CallCancel cancel m # body cancel @ [Throw e]) w = Some c"
    for c
  proof -
    from a have x: "(case trigger n ?t m (alloc w) of None \<Rightarrow> None
         | Some (Normal w') \<Rightarrow> exec n JUndefined (body ?t @ [Throw e]) w'
         | Some (Throws e w') \<Rightarrow> Some (Throws e w')) = Some c"
      by (simp add: new_CancelToken_def)
    then show ?thesis
    proof (cases rule: bind_SomeD)
      case (normal w0)
      from exec_ends_with_Throw[OF normal(2)] obtain e' w1 where c: "c = Throws e' w1" by blast
      have "reason (heap w0 ! ?t) = Some (new_Cancel m)"
        using trigger_pending_reason[OF _ _ normal(1)] by simp
      from extends_reason[OF exec_extends[OF normal(2)] this] c show ?thesis by simp
    next
      case (throws e' w0)
      with trigger_Throws[of n ?t m "alloc w" e' w0] show ?thesis by simp
    qed
  qed
  show ?thesis
  proof (intro conjI impI)
    assume "exec n JUndefined (fn (length (heap w))) (alloc w) = Some (Throws e w')"
    then show "new_CancelToken n fn w = Some (Throws e w')"
      by (simp add: new_CancelToken_def)
  next
    show "new_CancelToken n (\<lambda>cancel. Throw e # body cancel) w = Some (Throws e (alloc w))"
      by (simp add: new_CancelToken_def)
  next
    assume "new_CancelToken n (\<lambda>cancel. CallCancel cancel m # body cancel @ [Throw e]) w = Some c"
    then show "\<exists>e' w1. c = Throws e' w1 \<and>
         (reason (heap w1 ! length (heap w)) = Some (new_Cancel m) \<or>
          toString_call n m (alloc w) = Some (Throws e' w1))"
      by (rule general)
  next
    assume "plain m \<and>
      new_CancelToken n (\<lambda>cancel. CallCancel cancel m # body cancel @ [Throw e]) w = Some c"
    with general[of c]
    show "\<exists>e' w1. c = Throws e' w1 \<and> reason (heap w1 ! length (heap w)) = Some (new_Cancel m)"
      by (auto simp: toString_call_plain)
  next
    assume "plain m"
    then show "\<exists>w1. new_CancelToken n (\<lambda>cancel. [CallCancel cancel m, Throw e]) w =
                  Some (Throws e w1) \<and>
      reason (heap w1 ! length (heap w)) = Some (new_Cancel m)"
      by (simp add: new_CancelToken_def trigger_fresh heap_upd_token)
  qed
qed

theorem constructor_propagates_witness:
  "exec 1 JUndefined [CallCancel 2 (JStr ''early''), Subscribe 1 bystander, Throw (JStr ''setup failed'')]
     (alloc cancelled_world) =
     Some (Throws (JStr ''setup failed'')
       \<lparr>heap = [\<lparr>reason = None, observers = []\<rparr>,
                \<lparr>reason = Some (Cancel ''stop''), observers = []\<rparr>,
                \<lparr>reason = Some (Cancel ''early''), observers = []\<rparr>],
         disposers = [1], reported = [],
         calls = [Next 1 (Object 2) (JObj (Cancel ''stop'')), Complete 1 (Object 2)]\<rparr>) \<and>
   new_CancelToken 1
     (\<lambda>cancel. [CallCancel cancel (JStr ''early''), Subscribe 1 bystander, Throw (JStr ''setup failed'')])
     cancelled_world =
     Some (Throws (JStr ''setup failed'')
       \<lparr>heap = [\<lparr>reason = None, observers = []\<rparr>,
                \<lparr>reason = Some (Cancel ''stop''), observers = []\<rparr>,
                \<lparr>reason = Some (Cancel ''early''), observers = []\<rparr>],
         disposers = [1], reported = [],
         calls = [Next 1 (Object 2) (JObj (Cancel ''stop'')), Complete 1 (Object 2)]\<rparr>) \<and>
   plain (JStr ''early'') \<and>
   (\<exists>e' w1. Throws (JStr ''setup failed'')
       \<lparr>heap = [\<lparr>reason = None, observers = []\<rparr>,
                \<lparr>reason = Some (Cancel ''stop''), observers = []\<rparr>,
                \<lparr>reason = Some (Cancel ''early''), observers = []\<rparr>],
         disposers = [1], reported = [],
         calls = [Next 1 (Object 2) (JObj (Cancel ''stop'')), Complete 1 (Object 2)]\<rparr> =
       Throws e' w1 \<and>
     reason (heap w1 ! length (heap cancelled_world)) = Some (new_Cancel (JStr ''early''))) \<and>
   new_CancelToken 1
     (\<lambda>cancel. CallCancel cancel failing_message # [Subscribe 1 bystander] @
                  [Throw (JStr ''setup failed'')])
     cancelled_world = Some (Throws (JStr ''no string'') (alloc cancelled_world)) \<and>
   (\<exists>e' w1. Throws (JStr ''no string'') (alloc cancelled_world) = Throws e' w1 \<and>
      (reason (heap w1 ! length (heap cancelled_world)) = Some (new_Cancel failing_message) \<or>
       toString_call 1 failing_message (alloc cancelled_world) = Some (Throws e' w1)))"
  (is "?x \<and> ?k \<and> ?pl \<and> ?r \<and> ?f \<and> ?g")
proof -
  have x: ?x and f: ?f by code_simp+
  have pl: ?pl by simp
  have "length (heap cancelled_world) = 2" by (simp add: cancelled_world_def)
  with x have x': "exec 1 JUndefined
      ((\<lambda>cancel. [CallCancel cancel (JStr ''early''), Subscribe 1 bystander,
                   Throw (JStr ''setup failed'')]) (length (heap cancelled_world)))
      (alloc cancelled_world) =
     Some (Throws (JStr ''setup failed'')
       \<lparr>heap = [\<lparr>reason = None, observers = []\<rparr>,
                \<lparr>reason = Some (Cancel ''stop''), observers = []\<rparr>,
                \<lparr>reason = Some (Cancel ''early''), observers = []\<rparr>],
         disposers = [1], reported = [],
         calls = [Next 1 (Object 2) (JObj (Cancel ''stop'')), Complete 1 (Object 2)]\<rparr>)"
    by simp
  have k: ?k
    by (rule constructor_propagates[where n = 1 and w = cancelled_world
        and fn = "\<lambda>cancel. [CallCancel cancel (JStr ''early''), Subscribe 1 bystander,
                             Throw (JStr ''setup failed'')]",
        THEN conjunct1, THEN mp, OF x'])
  have "plain (JStr ''early'') \<and> new_CancelToken 1
     (\<lambda>cancel. [CallCancel cancel (JStr ''early''), Subscribe 1 bystander,
                  Throw (JStr ''setup failed'')])
     cancelled_world = Some c \<longrightarrow>
     (\<exists>e' w1. c = Throws e' w1 \<and>
        reason (heap w1 ! length (heap cancelled_world)) = Some (new_Cancel (JStr ''early'')))"
    for c
    using constructor_propagates[where n = 1 and w = cancelled_world
        and m = "JStr ''early''" and body = "\<lambda>cancel. [Subscribe 1 bystander]"
        and e = "JStr ''setup failed''" and c = c,
        THEN conjunct2, THEN conjunct2, THEN conjunct2, THEN conjunct1]
    by simp
  with k pl have r: ?r by blast
  have g: ?g
    using constructor_propagates[where n = 1 and w = cancelled_world
        and m = failing_message and body = "\<lambda>cancel. [Subscribe 1 bystander]"
        and e = "JStr ''setup failed''"
        and c = "Throws (JStr ''no string'') (alloc cancelled_world)",
        THEN conjunct2, THEN conjunct2, THEN conjunct1] f
    by blast
  show ?thesis using x k pl r f g by blast
qed

end
